theory Spec2Isabelle
  imports Main "HOL-Library.Sublist"
begin

section \<open>Characters and strings\<close>

text \<open>
  A Python \<open>str\<close> is a sequence of code points. The model uses \<open>string\<close>, whose
  characters carry the code points below 256 (ASCII and the Latin-1 supplement), so that
  \<open>length\<close> counts what Python's \<open>len\<close> counts on such text. The three character
  classes below are the ones the regular expressions of \<open>app.py\<close> use on a \<open>str\<close>
  pattern (Unicode matching): \<open>\w\<close> is alphanumeric or underscore, \<open>\s\<close> is
  whitespace, \<open>\d\<close> is a decimal digit.
\<close>

definition newline :: char where
  "newline = CHR 0x0A"

definition is_digit :: "char \<Rightarrow> bool" where
  \<comment> \<open>\<open>\d\<close>: the decimal digits; below 256 these are \<open>0\<close> to \<open>9\<close>.\<close>
  "is_digit c = (let n = (of_char c :: nat) in 48 \<le> n \<and> n \<le> 57)"

definition is_space :: "char \<Rightarrow> bool" where
  \<comment> \<open>\<open>\s\<close> and \<open>str.isspace\<close>: tab to carriage return, the four separators
      \<open>0x1c\<close> to \<open>0x1f\<close>, space, next line \<open>0x85\<close>, no-break space \<open>0xa0\<close>.\<close>
  "is_space c = (let n = (of_char c :: nat) in
     (9 \<le> n \<and> n \<le> 13) \<or> (28 \<le> n \<and> n \<le> 32) \<or> n = 133 \<or> n = 160)"

definition is_word_char :: "char \<Rightarrow> bool" where
  \<comment> \<open>\<open>\w\<close>: \<open>str.isalnum\<close> or underscore. Below 256: digits, ASCII letters, and in
      the Latin-1 supplement the letters, the ordinal indicators, the micro sign, the
      superscript digits and the vulgar fractions.\<close>
  "is_word_char c = (let n = (of_char c :: nat) in
     (48 \<le> n \<and> n \<le> 57) \<or> (65 \<le> n \<and> n \<le> 90) \<or> n = 95 \<or> (97 \<le> n \<and> n \<le> 122) \<or>
     n = 170 \<or> n = 178 \<or> n = 179 \<or> n = 181 \<or> n = 185 \<or> n = 186 \<or>
     (188 \<le> n \<and> n \<le> 190) \<or> (192 \<le> n \<and> n \<le> 214) \<or> (216 \<le> n \<and> n \<le> 246) \<or>
     (248 \<le> n \<and> n \<le> 255))"

definition lower_char :: "char \<Rightarrow> char" where
  \<comment> \<open>The lower-case mapping of one code point: \<open>A\<close> to \<open>Z\<close> and the Latin-1 capitals
      move up by 32, everything else stays.\<close>
  "lower_char c = (let n = (of_char c :: nat) in
     if (65 \<le> n \<and> n \<le> 90) \<or> (192 \<le> n \<and> n \<le> 214) \<or> (216 \<le> n \<and> n \<le> 222)
     then char_of (n + 32) else c)"

definition str_lower :: "string \<Rightarrow> string" where
  \<comment> \<open>\<open>str.lower()\<close>\<close>
  "str_lower s = map lower_char s"

definition strip :: "string \<Rightarrow> string" where
  \<comment> \<open>\<open>str.strip()\<close>: leading and trailing whitespace removed.\<close>
  "strip s = rev (dropWhile is_space (rev (dropWhile is_space s)))"

section \<open>Guardrail filter\<close>

text \<open>
  \<^verbatim>\<open>
  def clean_output(text):
      banned_words = ["fuck", "shit", "hate", "kill"]
      for w in banned_words:
          text = re.sub(rf"\b{w}\b", "[removed]", text, flags=re.IGNORECASE)
      return text
  \<close>
  The pattern is \<open>\b\<close>, the literal word, \<open>\b\<close>. With \<open>IGNORECASE\<close> a literal
  character matches a text character when their lower-case mappings agree. \<open>\b\<close>
  holds at a position when exactly one of the characters before and after it is a word
  character, the outside of the text counting as a non-word character.
\<close>

fun match_literal :: "string \<Rightarrow> string \<Rightarrow> bool" where
  \<comment> \<open>the literal \<open>w\<close>, case-insensitively, at the start of the text\<close>
  "match_literal [] t = True"
| "match_literal (p # ps) [] = False"
| "match_literal (p # ps) (c # cs) = (lower_char c = lower_char p \<and> match_literal ps cs)"

definition starts_word :: "string \<Rightarrow> bool" where
  \<comment> \<open>the text begins with a word character\<close>
  "starts_word t = (case t of [] \<Rightarrow> False | c # _ \<Rightarrow> is_word_char c)"

definition word_boundary :: "bool \<Rightarrow> string \<Rightarrow> bool" where
  \<comment> \<open>\<open>\b\<close> between a previous character (word character or not) and the rest of
      the text\<close>
  "word_boundary prevw t = (prevw \<noteq> starts_word t)"

definition last_is_word :: "bool \<Rightarrow> string \<Rightarrow> bool" where
  \<comment> \<open>whether the character before the end of a consumed piece is a word character;
      \<open>prevw\<close> answers for an empty piece\<close>
  "last_is_word prevw m = (case rev m of [] \<Rightarrow> prevw | c # _ \<Rightarrow> is_word_char c)"

definition word_match :: "string \<Rightarrow> bool \<Rightarrow> string \<Rightarrow> bool" where
  \<comment> \<open>\<open>\bw\b\<close> matches at the start of \<open>t\<close>, where \<open>prevw\<close> tells whether the
      character before \<open>t\<close> is a word character\<close>
  "word_match w prevw t =
     (word_boundary prevw t \<and> match_literal w t \<and>
      word_boundary (last_is_word prevw (take (length w) t)) (drop (length w) t))"

fun re_sub_word :: "string \<Rightarrow> string \<Rightarrow> bool \<Rightarrow> string \<Rightarrow> string" where
  \<comment> \<open>\<open>re.sub(rf"\b{w}\b", repl, text, flags=re.IGNORECASE)\<close> for a non-empty
      literal \<open>w\<close>: the text is scanned from the left; a match is replaced and the scan
      goes on behind it, any other character is copied.\<close>
  "re_sub_word w repl prevw [] = []"
| "re_sub_word w repl prevw (c # cs) =
     (if word_match w prevw (c # cs)
      then repl @ re_sub_word w repl (last_is_word prevw (take (length w) (c # cs)))
                    (drop (length w - 1) cs)
      else c # re_sub_word w repl (is_word_char c) cs)"

definition banned_words :: "string list" where
  "banned_words = [''fuck'', ''shit'', ''hate'', ''kill'']"

definition placeholder :: string where
  "placeholder = ''[removed]''"

definition clean_output :: "string \<Rightarrow> string" where
  "clean_output text = foldl (\<lambda>t w. re_sub_word w placeholder False t) text banned_words"

section \<open>Post splitter\<close>

text \<open>
  \<^verbatim>\<open>
  posts = re.split(r"\n\s*\d+[\.\)]", posts_raw)
  posts = [p.strip() for p in posts if len(p.strip()) > 30]
  posts = posts[:post_count]
  \<close>
  The marker pattern is a newline, whitespace, one or more digits and a full stop or a
  closing parenthesis. Whitespace, digits and the two terminators are disjoint classes,
  so the greedy quantifiers never give anything back: the pattern matches exactly when,
  behind the newline and all the whitespace that follows it, there is a non-empty run of
  digits with a terminator right behind the whole run.
\<close>

definition is_terminator :: "char \<Rightarrow> bool" where
  "is_terminator c = (c = CHR ''.'' \<or> c = CHR '')'')"

definition marker_match :: "string \<Rightarrow> string option" where
  \<comment> \<open>the marker pattern at the start of the text: the text behind the match\<close>
  "marker_match t =
     (case t of
        [] \<Rightarrow> None
      | c # cs \<Rightarrow>
          if c \<noteq> newline then None
          else (let ds = dropWhile is_space cs in
                if takeWhile is_digit ds = [] then None
                else (case dropWhile is_digit ds of
                        [] \<Rightarrow> None
                      | e # es \<Rightarrow> if is_terminator e then Some es else None)))"

lemma marker_match_shorter: "marker_match t = Some rest \<Longrightarrow> length rest < length t"
proof -
  assume m: "marker_match t = Some rest"
  then obtain c cs where t: "t = c # cs" by (cases t) (simp_all add: marker_match_def)
  let ?ds = "dropWhile is_space cs"
  from m t obtain e where e: "dropWhile is_digit ?ds = e # rest"
    by (auto simp: marker_match_def Let_def split: if_splits list.splits)
  have "length (dropWhile is_digit ?ds) \<le> length ?ds" by (rule length_dropWhile_le)
  moreover have "length ?ds \<le> length cs" by (rule length_dropWhile_le)
  ultimately show ?thesis using e t by simp
qed

function re_split_from :: "string \<Rightarrow> string \<Rightarrow> string list" where
  \<comment> \<open>\<open>re.split\<close> on the marker pattern, scanning from the left: \<open>acc\<close> is the
      piece collected since the last match\<close>
  "re_split_from acc [] = [acc]"
| "re_split_from acc (c # cs) =
     (case marker_match (c # cs) of
        Some rest \<Rightarrow> acc # re_split_from [] rest
      | None \<Rightarrow> re_split_from (acc @ [c]) cs)"
  by pat_completeness auto
termination re_split_from
  by (relation "measure (\<lambda>(acc, t). length t)") (auto dest: marker_match_shorter)

definition re_split :: "string \<Rightarrow> string list" where
  "re_split posts_raw = re_split_from [] posts_raw"

definition slice_to :: "int \<Rightarrow> 'a list \<Rightarrow> 'a list" where
  \<comment> \<open>\<open>xs[:n]\<close>; a negative \<open>n\<close> counts from the end\<close>
  "slice_to n xs = (if 0 \<le> n then take (nat n) xs else take (length xs - nat (- n)) xs)"

definition long_fragments :: "string list \<Rightarrow> string list" where
  \<comment> \<open>\<open>[p.strip() for p in posts if len(p.strip()) > 30]\<close>\<close>
  "long_fragments posts = map strip (filter (\<lambda>p. 30 < length (strip p)) posts)"

definition split_posts :: "string \<Rightarrow> int \<Rightarrow> string list" where
  "split_posts posts_raw post_count = slice_to post_count (long_fragments (re_split posts_raw))"

section \<open>Generation pipeline\<close>

text \<open>
  The request holds the sidebar inputs that \<open>generate_posts\<close> receives. The
  text-generation service is outside the program: a call takes the model name and the
  prompt, and either raises or returns the content of the first choice. It is modelled as
  a function on an explicit state \<open>'w\<close> of the outside world, so that two calls with the
  same prompt may answer differently and a call that is made leaves its trace in
  \<open>'w\<close>. An exception carries its message. A reply is a string, as the contract of
  the service has it; a reply without content is not modelled. The latency that
  \<open>generate_posts\<close> also returns is a difference of wall-clock readings and is left
  out. Showing the results is taken not to raise.
\<close>

record request =
  topic :: string
  tone :: string
  audience :: string
  length_choice :: string
  language :: string
  hashtags :: bool
  cta :: bool
  post_count :: int

datatype exn = Exn string

type_synonym 'w collaborator = "string \<Rightarrow> string \<Rightarrow> 'w \<Rightarrow> (exn + string) \<times> 'w"

definition digit_char :: "nat \<Rightarrow> char" where
  "digit_char d = char_of (48 + d)"

function str_of_nat :: "nat \<Rightarrow> string" where
  "str_of_nat n = (if n < 10 then [digit_char n] else str_of_nat (n div 10) @ [digit_char (n mod 10)])"
  by pat_completeness auto
termination str_of_nat
  by (relation "measure id") auto

definition str_of_int :: "int \<Rightarrow> string" where
  \<comment> \<open>\<open>str\<close> of an integer, as an f-string renders it\<close>
  "str_of_int i = (if i < 0 then CHR ''-'' # str_of_nat (nat (- i)) else str_of_nat (nat i))"

definition str_of_bool :: "bool \<Rightarrow> string" where
  "str_of_bool b = (if b then ''True'' else ''False'')"

definition quote :: char where
  "quote = CHR 0x22"

definition plan_prompt :: "request \<Rightarrow> string" where
  "plan_prompt r =
     [newline] @
     ''    You are an expert LinkedIn strategist. '' @ [newline] @
     ''    First, outline a brief plan for '' @ str_of_int (post_count r) @ '' '' @
       str_lower (tone r) @ '' posts in '' @ language r @ '', '' @ [newline] @
     ''    about '' @ [quote] @ topic r @ [quote] @ '', targeting '' @
       (if audience r \<noteq> [] then audience r else ''a general professional audience'') @
       ''.'' @ [newline] @
     ''    Each plan should describe style, structure, and key points.'' @ [newline] @
     ''    ''"

definition gen_prompt :: "request \<Rightarrow> string \<Rightarrow> string" where
  "gen_prompt r plan =
     [newline] @
     ''    Based on this plan:'' @ [newline] @ plan @ [newline] @ [newline] @
     ''    Write '' @ str_of_int (post_count r) @ '' LinkedIn posts in '' @ language r @
       ''.'' @ [newline] @
     ''    Keep them '' @ str_lower (length_choice r) @ '' and '' @ str_lower (tone r) @
       ''.'' @ [newline] @
     ''    Each post should be natural, engaging, and professional.'' @ [newline] @
     ''    Do not repeat wording.'' @ [newline] @
     ''    ''"

definition extras_prompt :: "request \<Rightarrow> string" where
  "extras_prompt r =
     [newline] @
     ''        For the topic '' @ [quote] @ topic r @ [quote] @ '', suggest:'' @ [newline] @
     ''        - Relevant hashtags (if '' @ str_of_bool (hashtags r) @ '')'' @ [newline] @
     ''        - A short call-to-action line (if '' @ str_of_bool (cta r) @ '')'' @ [newline] @
     ''        Output clearly.'' @ [newline] @
     ''        ''"

definition chat :: "'w collaborator \<Rightarrow> string \<Rightarrow> 'w \<Rightarrow> (exn + string) \<times> 'w" where
  \<comment> \<open>\<open>client.chat.completions.create(model="gpt-4o-mini", messages=[...])\<close> and
      the content of its first choice\<close>
  "chat client prompt w = client ''gpt-4o-mini'' prompt w"

definition generate_posts ::
  "'w collaborator \<Rightarrow> request \<Rightarrow> 'w \<Rightarrow> (exn + string list \<times> string) \<times> 'w" where
  "generate_posts client r w =
     (case chat client (plan_prompt r) w of
        (Inl e, w1) \<Rightarrow> (Inl e, w1)
      | (Inr plan, w1) \<Rightarrow>
          (case chat client (gen_prompt r plan) w1 of
             (Inl e, w2) \<Rightarrow> (Inl e, w2)
           | (Inr posts_raw, w2) \<Rightarrow>
               (let posts = split_posts posts_raw (post_count r) in
                if hashtags r \<or> cta r
                then (case chat client (extras_prompt r) w2 of
                        (Inl e, w3) \<Rightarrow> (Inl e, w3)
                      | (Inr extras, w3) \<Rightarrow> (Inr (map clean_output posts, extras), w3))
                else (Inr (map clean_output posts, []), w2))))"

section \<open>Session history and the run of the script\<close>

text \<open>
  Every interaction runs the script once. The history lives in the session state and
  starts empty. A run with the button pressed warns when the topic is empty, and
  otherwise calls \<open>generate_posts\<close> inside \<open>try\<close>: on return the posts are appended
  to the history and shown, on an exception the message is shown. The history expander
  lists \<open>history[:-1]\<close>.
\<close>

datatype display =
    NoRun
  | TopicWarning
  | Results "string list" string
  | ErrorMessage string

definition initial_history :: "string list list" where
  "initial_history = []"

definition run_script ::
  "'w collaborator \<Rightarrow> request \<Rightarrow> bool \<Rightarrow> string list list \<Rightarrow> 'w \<Rightarrow>
   (display \<times> string list list) \<times> 'w" where
  "run_script client r generate_btn history w =
     (if generate_btn
      then (if topic r = [] then ((TopicWarning, history), w)
            else (case generate_posts client r w of
                    (Inl (Exn e), w') \<Rightarrow> ((ErrorMessage e, history), w')
                  | (Inr (posts, extras), w') \<Rightarrow>
                      ((Results posts extras, history @ [posts]), w')))
      else ((NoRun, history), w))"

definition suggestions_shown :: "string \<Rightarrow> bool" where
  \<comment> \<open>\<open>if extras:\<close> before the suggestions are written\<close>
  "suggestions_shown extras = (extras \<noteq> [])"


fun run_session ::
  "'w collaborator \<Rightarrow> (request \<times> bool) list \<Rightarrow> string list list \<Rightarrow> 'w \<Rightarrow>
   (display list \<times> string list list) \<times> 'w" where
  "run_session client [] history w = (([], history), w)"
| "run_session client ((r, generate_btn) # runs) history w =
     (case run_script client r generate_btn history w of
        ((d, history'), w') \<Rightarrow>
          (case run_session client runs history' w' of
             ((ds, history''), w'') \<Rightarrow> ((d # ds, history''), w'')))"

section \<open>Properties of texts\<close>

text \<open>
  A whole-word occurrence of \<open>w\<close> in a text is a position where the text agrees with
  \<open>w\<close> up to case and is neither preceded nor followed by a word character.
\<close>

definition whole_word_at :: "string \<Rightarrow> string \<Rightarrow> nat \<Rightarrow> bool" where
  "whole_word_at w text i =
     (i + length w \<le> length text \<and>
      str_lower (take (length w) (drop i text)) = str_lower w \<and>
      \<not> (0 < i \<and> is_word_char (text ! (i - 1))) \<and>
      \<not> (i + length w < length text \<and> is_word_char (text ! (i + length w))))"

definition has_whole_word :: "string \<Rightarrow> string \<Rightarrow> bool" where
  "has_whole_word w text = list_ex (whole_word_at w text) [0..<Suc (length text)]"

definition ends_word :: "string \<Rightarrow> bool" where
  \<comment> \<open>the text ends with a word character\<close>
  "ends_word t = last_is_word False t"

definition embedded :: "string \<Rightarrow> string \<Rightarrow> bool" where
  \<comment> \<open>an occurrence between \<open>pre\<close> and \<open>post\<close> is preceded or followed by a word
      character\<close>
  "embedded pre post = (ends_word pre \<or> starts_word post)"

definition word_tail :: "string \<Rightarrow> string" where
  \<comment> \<open>the word characters at the end of the text\<close>
  "word_tail pre = rev (takeWhile is_word_char (rev pre))"

definition before_word :: "string \<Rightarrow> string" where
  \<comment> \<open>the text without the word characters at its end\<close>
  "before_word pre = rev (dropWhile is_word_char (rev pre))"

definition word_head :: "string \<Rightarrow> string" where
  \<comment> \<open>the word characters at the start of the text\<close>
  "word_head post = takeWhile is_word_char post"

definition after_word :: "string \<Rightarrow> string" where
  \<comment> \<open>the text without the word characters at its start\<close>
  "after_word post = dropWhile is_word_char post"

text \<open>
  Auxiliary notions for the proofs: the scan that \<open>re_sub_word\<close> performs, as a
  predicate; words made of word characters; words that cannot begin inside the
  placeholder.
\<close>

fun scan_word :: "string \<Rightarrow> bool \<Rightarrow> string \<Rightarrow> bool" where
  "scan_word w prevw [] = False"
| "scan_word w prevw (c # cs) = (word_match w prevw (c # cs) \<or> scan_word w (is_word_char c) cs)"

definition letters :: "string \<Rightarrow> bool" where
  "letters w = (w \<noteq> [] \<and> list_all is_word_char w)"

definition plain_word :: "string \<Rightarrow> bool" where
  "plain_word w = (letters w \<and> lower_char (hd w) \<noteq> CHR ''r'')"

definition preceded :: "bool \<Rightarrow> string \<Rightarrow> nat \<Rightarrow> bool" where
  "preceded p t i = (if i = 0 then p else is_word_char (t ! (i - 1)))"

text \<open>
  Notions for the splitter and the pipeline: that no marker begins inside a piece of the
  text; the reply of the draft call; the first collaborator call of a run that raises;
  the posts of the runs that succeeded; posts and histories free of banned whole words.
\<close>

definition no_marker_inside :: "string \<Rightarrow> string \<Rightarrow> bool" where
  \<comment> \<open>the marker pattern matches at no position of \<open>raw\<close> below \<open>length pre\<close>\<close>
  "no_marker_inside pre raw = list_all (\<lambda>i. marker_match (drop i raw) = None) [0..<length pre]"

definition draft_reply :: "'w collaborator \<Rightarrow> request \<Rightarrow> 'w \<Rightarrow> (exn + string) \<times> 'w" where
  \<comment> \<open>the plan call and then the draft call, as \<open>generate_posts\<close> makes them\<close>
  "draft_reply client r w =
     (case chat client (plan_prompt r) w of
        (Inl e, w1) \<Rightarrow> (Inl e, w1)
      | (Inr plan, w1) \<Rightarrow> chat client (gen_prompt r plan) w1)"

definition first_failure :: "'w collaborator \<Rightarrow> request \<Rightarrow> 'w \<Rightarrow> (exn \<times> 'w) option" where
  \<comment> \<open>the exception of the first of the sequential calls that raises, if one does: the
      plan call, the draft call, and the extras call when a flag is set\<close>
  "first_failure client r w =
     (case chat client (plan_prompt r) w of
        (Inl e, w1) \<Rightarrow> Some (e, w1)
      | (Inr plan, w1) \<Rightarrow>
          (case chat client (gen_prompt r plan) w1 of
             (Inl e, w2) \<Rightarrow> Some (e, w2)
           | (Inr posts_raw, w2) \<Rightarrow>
               if hashtags r \<or> cta r
               then (case chat client (extras_prompt r) w2 of
                       (Inl e, w3) \<Rightarrow> Some (e, w3)
                     | (Inr extras, w3) \<Rightarrow> None)
               else None))"


definition clean_post :: "string \<Rightarrow> bool" where
  "clean_post p = list_all (\<lambda>b. \<not> has_whole_word b p) banned_words"

definition clean_history :: "string list list \<Rightarrow> bool" where
  "clean_history history = list_all (list_all clean_post) history"

text \<open>
  A raw text with numbered segments, in the words of the specification and without
  reference to the code of the splitter: a numbered marker is a newline, optional
  whitespace, one or more of the digits \<open>0\<close> to \<open>9\<close>, and a full stop or a closing
  parenthesis; a numbered text is a list of markers, each followed by its segment; it is
  well numbered when every marker is one and no marker begins inside a segment.
\<close>

definition decimal_digit :: "char \<Rightarrow> bool" where
  "decimal_digit c = (c \<in> set ''0123456789'')"

definition numbered_marker :: "string \<Rightarrow> bool" where
  \<comment> \<open>read from the end: the terminator, before it the digits, before them whitespace
      only, and a newline in front\<close>
  "numbered_marker m =
     (case m of
        [] \<Rightarrow> False
      | c # body \<Rightarrow>
          c = CHR 0x0A \<and>
          (case rev body of
             [] \<Rightarrow> False
           | t # front \<Rightarrow>
               (t = CHR ''.'' \<or> t = CHR '')'') \<and> takeWhile decimal_digit front \<noteq> [] \<and>
               list_all is_space (dropWhile decimal_digit front)))"

definition begins_marker :: "string \<Rightarrow> bool" where
  \<comment> \<open>some prefix of the text is a numbered marker\<close>
  "begins_marker t = list_ex (\<lambda>k. numbered_marker (take k t)) [0..<Suc (length t)]"

definition marker_free :: "string \<Rightarrow> string \<Rightarrow> bool" where
  \<comment> \<open>no numbered marker begins at a position of \<open>s\<close>, when \<open>rest\<close> follows it\<close>
  "marker_free s rest = list_all (\<lambda>i. \<not> begins_marker (drop i (s @ rest))) [0..<length s]"

fun numbered_text :: "(string \<times> string) list \<Rightarrow> string" where
  "numbered_text [] = []"
| "numbered_text ((m, s) # items) = m @ s @ numbered_text items"

fun well_numbered :: "(string \<times> string) list \<Rightarrow> bool" where
  "well_numbered [] = True"
| "well_numbered ((m, s) # items) =
     (numbered_marker m \<and> marker_free s (numbered_text items) \<and> well_numbered items)"

section \<open>Example inputs\<close>

text \<open>
  A stub collaborator that answers from a prepared list of replies, one per call, and the
  request of the specification's scenario. A call consumes a reply, so the replies that
  are left tell how many calls were made.
\<close>

definition scripted :: "(exn + string) list collaborator" where
  "scripted model prompt replies =
     (case replies of [] \<Rightarrow> (Inl (Exn ''no reply''), []) | x # xs \<Rightarrow> (x, xs))"

definition example_request :: request where
  "example_request =
     \<lparr>topic = ''Cold-start strategies'', tone = ''Professional'', audience = '''',
      length_choice = ''Short'', language = ''English'', hashtags = True, cta = False,
      post_count = 3\<rparr>"

definition example_draft :: string where
  "example_draft =
     ''1. Cold starts are hard, and I hate waiting for traction.'' @ [newline] @
     ''2. Seed one side of the marketplace before the other.'' @ [newline] @
     ''3) Short.'' @ [newline] @
     ''4. Measure liquidity, not sign-ups, from the first week.''"

definition example_posts :: "string list" where
  "example_posts =
     [''1. Cold starts are hard, and I [removed] waiting for traction.'',
      ''Seed one side of the marketplace before the other.'',
      ''Measure liquidity, not sign-ups, from the first week.'']"





definition example_header :: string where
  "example_header = ''Posts:''"

definition example_items :: "(string \<times> string) list" where
  "example_items =
     [(newline # ''1.'', '' Cold starts are hard, and I hate waiting for traction.''),
      ([newline, newline] @ ''2)'', '' Seed one side of the marketplace before the other.''),
      (newline # ''  3.'', '' Short.''),
      (newline # ''4.'', '' Measure liquidity, not sign-ups, from the first week.'')]"

section \<open>The guardrail filter removes whole words only\<close>

lemma of_char_char_of_small: "n < 256 \<Longrightarrow> of_char (char_of n) = (n::nat)"
  by simp

lemma is_word_lower: "is_word_char (lower_char c) = is_word_char c"
  unfolding is_word_char_def lower_char_def Let_def
  using of_char_char_of_small[of "of_char c + 32"]
  by (auto simp: Let_def)

lemma lower_eq_word: "lower_char c = lower_char p \<Longrightarrow> is_word_char c = is_word_char p"
  by (metis is_word_lower)

lemma match_literal_length: "match_literal w t \<Longrightarrow> length w \<le> length t"
  by (induction w t rule: match_literal.induct) auto

lemma match_literal_iff:
  "match_literal w t \<longleftrightarrow> length w \<le> length t \<and> str_lower (take (length w) t) = str_lower w"
  by (induction w t rule: match_literal.induct) (auto simp: str_lower_def)

lemma match_literal_word:
  "match_literal w t \<Longrightarrow> list_all is_word_char w \<Longrightarrow> list_all is_word_char (take (length w) t)"
  by (induction w t rule: match_literal.induct) (auto dest: lower_eq_word)

lemma match_literal_append:
  "length w \<le> length xs \<Longrightarrow> match_literal w (xs @ ys) = match_literal w xs"
  by (simp add: match_literal_iff)

lemma last_is_word_all:
  "m \<noteq> [] \<Longrightarrow> list_all is_word_char m \<Longrightarrow> last_is_word p m"
  by (cases m rule: rev_cases) (auto simp: last_is_word_def)

lemma word_match_letters:
  assumes "letters w"
  shows "word_match w p t \<longleftrightarrow> \<not> p \<and> match_literal w t \<and> \<not> starts_word (drop (length w) t)"
proof (cases "match_literal w t")
  case False
  then show ?thesis by (simp add: word_match_def)
next
  case True
  from assms have ne: "w \<noteq> []" and all: "list_all is_word_char w"
    by (simp_all add: letters_def)
  from True have len: "length w \<le> length t" by (rule match_literal_length)
  have tw: "list_all is_word_char (take (length w) t)"
    using True all by (rule match_literal_word)
  from ne len have tne: "take (length w) t \<noteq> []" by (cases t) auto
  have st: "starts_word t"
    using tw ne len by (cases t; cases w) (auto simp: starts_word_def)
  have lw: "last_is_word p (take (length w) t)"
    using tne tw by (rule last_is_word_all)
  show ?thesis
    using True st lw by (simp add: word_match_def word_boundary_def)
qed

lemma word_match_starts: "letters w \<Longrightarrow> word_match w p t \<Longrightarrow> starts_word t \<and> \<not> p"
  using word_match_letters[of w p t] by (auto simp: word_match_def word_boundary_def)

lemma letters_length: "letters w \<Longrightarrow> 0 < length w"
  by (simp add: letters_def)

lemma last_is_word_Nil [simp]: "last_is_word p [] = p"
  by (simp add: last_is_word_def)

lemma last_is_word_Cons [simp]: "last_is_word p (c # xs) = last_is_word (is_word_char c) xs"
  by (cases xs rule: rev_cases) (simp_all add: last_is_word_def)

lemma last_is_word_append:
  "last_is_word p (xs @ ys) = last_is_word (last_is_word p xs) ys"
  by (induction xs arbitrary: p) simp_all

lemma starts_word_simps [simp]:
  "starts_word [] = False" "starts_word (c # cs) = is_word_char c"
  by (simp_all add: starts_word_def)

lemma starts_word_append:
  "starts_word (xs @ ys) = (if xs = [] then starts_word ys else starts_word xs)"
  by (cases xs) simp_all

lemma re_sub_id: "\<not> scan_word w p t \<Longrightarrow> re_sub_word w R p t = t"
  by (induction t arbitrary: p) auto

lemma re_sub_flag:
  assumes "letters w" "\<not> starts_word t"
  shows "re_sub_word w R p t = re_sub_word w R q t"
proof (cases t)
  case Nil
  then show ?thesis by simp
next
  case (Cons c cs)
  with assms have "\<not> word_match w p t" "\<not> word_match w q t"
    using word_match_starts by blast+
  with Cons show ?thesis by simp
qed

lemma scan_flag:
  assumes "letters w" "\<not> starts_word t"
  shows "scan_word w p t = scan_word w q t"
proof (cases t)
  case Nil
  then show ?thesis by simp
next
  case (Cons c cs)
  with assms have "\<not> word_match w p t" "\<not> word_match w q t"
    using word_match_starts by blast+
  with Cons show ?thesis by simp
qed

lemma re_sub_True_Cons:
  assumes "letters w"
  shows "re_sub_word w R True (c # cs) = c # re_sub_word w R (is_word_char c) cs"
proof -
  have "\<not> word_match w True (c # cs)"
    using assms word_match_starts by blast
  then show ?thesis by simp
qed

lemma re_sub_starts:
  assumes "letters w" "\<not> starts_word t"
  shows "\<not> starts_word (re_sub_word w R p t)"
proof (cases t)
  case Nil
  then show ?thesis by simp
next
  case (Cons c cs)
  with assms have "\<not> word_match w p t"
    using word_match_starts by blast
  with Cons assms show ?thesis by simp
qed

lemma scan_suffix:
  "\<not> scan_word w p t \<Longrightarrow> \<not> scan_word w (last_is_word p (take n t)) (drop n t)"
proof (induction t arbitrary: n p)
  case Nil
  then show ?case by simp
next
  case (Cons c cs)
  show ?case
  proof (cases n)
    case 0
    with Cons.prems show ?thesis by simp
  next
    case (Suc m)
    from Cons.prems have "\<not> scan_word w (is_word_char c) cs" by simp
    then have "\<not> scan_word w (last_is_word (is_word_char c) (take m cs)) (drop m cs)"
      by (rule Cons.IH)
    with Suc show ?thesis by simp
  qed
qed

lemma match_through_sub:
  assumes w: "letters w" and r: "\<not> is_word_char r"
  shows "list_all is_word_char ps \<Longrightarrow> match_literal ps (re_sub_word w (r # rs) q cs) \<Longrightarrow>
         match_literal ps cs \<and>
         drop (length ps) (re_sub_word w (r # rs) q cs) =
           re_sub_word w (r # rs) (last_is_word q (take (length ps) cs)) (drop (length ps) cs)"
proof (induction ps arbitrary: q cs)
  case Nil
  then show ?case by simp
next
  case (Cons p ps)
  from Cons.prems(1) have pw: "is_word_char p" and psw: "list_all is_word_char ps"
    by simp_all
  show ?case
  proof (cases cs)
    case Nil
    with Cons.prems show ?thesis by simp
  next
    case cs: (Cons d ds)
    show ?thesis
    proof (cases "word_match w q (d # ds)")
      case True
      with Cons.prems(2) cs have "lower_char r = lower_char p" by simp
      then have "is_word_char r = is_word_char p" by (rule lower_eq_word)
      with r pw show ?thesis by simp
    next
      case False
      with Cons.prems(2) cs have d: "lower_char d = lower_char p"
        and m: "match_literal ps (re_sub_word w (r # rs) (is_word_char d) ds)"
        by simp_all
      from Cons.IH[OF psw m] d False cs show ?thesis by simp
    qed
  qed
qed

lemma word_match_through_sub:
  assumes w: "letters w" and w': "letters w'" and r: "\<not> is_word_char r"
    and m: "word_match w' p (re_sub_word w (r # rs) p t)"
  shows "word_match w' p t"
proof -
  let ?out = "re_sub_word w (r # rs) p t"
  let ?n = "length w'"
  from w' have all: "list_all is_word_char w'" and ne: "w' \<noteq> []"
    by (simp_all add: letters_def)
  from m have "\<not> p \<and> match_literal w' ?out \<and> \<not> starts_word (drop ?n ?out)"
    using word_match_letters[OF w', of p ?out] by blast
  then have np: "\<not> p" and ml: "match_literal w' ?out"
    and ns: "\<not> starts_word (drop ?n ?out)"
    by blast+
  from match_through_sub[OF w r all ml]
  have mt: "match_literal w' t"
    and dr: "drop ?n ?out = re_sub_word w (r # rs) (last_is_word p (take ?n t)) (drop ?n t)"
    by simp_all
  have tw: "list_all is_word_char (take ?n t)"
    using mt all by (rule match_literal_word)
  have "take ?n t \<noteq> []"
    using ne match_literal_length[OF mt] by (cases t) auto
  then have lw: "last_is_word p (take ?n t)"
    using tw by (rule last_is_word_all)
  have "\<not> starts_word (drop ?n t)"
  proof
    assume s: "starts_word (drop ?n t)"
    then obtain e es where e: "drop ?n t = e # es" and ew: "is_word_char e"
      by (cases "drop ?n t") simp_all
    from dr lw e have "drop ?n ?out = e # re_sub_word w (r # rs) (is_word_char e) es"
      by (simp add: re_sub_True_Cons[OF w] del: re_sub_word.simps)
    with ns ew show False by simp
  qed
  with np mt show ?thesis
    using word_match_letters[OF w', of p t] by blast
qed

lemma scan_placeholder:
  assumes w: "letters w" and h: "lower_char (hd w) \<noteq> CHR ''r''"
  shows "scan_word w p (placeholder @ Y) = scan_word w False Y"
proof -
  have nw: "\<not> word_match w q (c # t)" if "\<not> is_word_char c" for q c t
    using word_match_starts[OF w, of q "c # t"] that by auto
  have nT: "\<not> word_match w True t" for t
    using word_match_starts[OF w, of True t] by auto
  have nr: "\<not> word_match w q (CHR ''r'' # t)" for q t
  proof
    assume "word_match w q (CHR ''r'' # t)"
    then have m: "match_literal w (CHR ''r'' # t)" by (simp add: word_match_def)
    from w obtain a as where "w = a # as" by (cases w) (auto simp: letters_def)
    with m have "lower_char (CHR ''r'') = lower_char (hd w)" by simp
    with h show False by (simp add: lower_char_def)
  qed
  have cw: "\<not> is_word_char (CHR ''['')" "\<not> is_word_char (CHR '']'')"
    "is_word_char (CHR ''r'')" "is_word_char (CHR ''e'')" "is_word_char (CHR ''m'')"
    "is_word_char (CHR ''o'')" "is_word_char (CHR ''v'')" "is_word_char (CHR ''d'')"
    by (simp_all add: is_word_char_def)
  show ?thesis
    by (simp add: placeholder_def nw nT nr cw)
qed

lemma re_sub_removes:
  assumes w: "letters w" and r: "\<not> is_word_char r"
    and R: "\<And>Y p. scan_word w p ((r # rs) @ Y) = scan_word w False Y"
  shows "\<not> scan_word w p (re_sub_word w (r # rs) p t)"
proof (induction "length t" arbitrary: t p rule: less_induct)
  case less
  show ?case
  proof (cases t)
    case Nil
    then show ?thesis by simp
  next
    case (Cons c cs)
    show ?thesis
    proof (cases "word_match w p (c # cs)")
      case True
      let ?q = "last_is_word p (take (length w) (c # cs))"
      let ?rest = "drop (length w - 1) cs"
      let ?Y = "re_sub_word w (r # rs) ?q ?rest"
      have "length ?rest < length t" using Cons by simp
      then have ih: "\<not> scan_word w ?q ?Y" by (rule less)
      from True have "\<not> starts_word (drop (length w) (c # cs))"
        using word_match_letters[OF w] by blast
      moreover have "drop (length w) (c # cs) = ?rest"
        using letters_length[OF w] by (simp add: drop_Cons')
      ultimately have "\<not> starts_word ?rest" by simp
      then have "\<not> starts_word ?Y" by (rule re_sub_starts[OF w])
      then have "scan_word w False ?Y = scan_word w ?q ?Y" by (rule scan_flag[OF w])
      with ih have "\<not> scan_word w p ((r # rs) @ ?Y)" by (simp only: R simp_thms)
      with True Cons show ?thesis by simp
    next
      case False
      let ?Z = "re_sub_word w (r # rs) (is_word_char c) cs"
      have out: "re_sub_word w (r # rs) p (c # cs) = c # ?Z" using False by simp
      have "length cs < length t" using Cons by simp
      then have ih: "\<not> scan_word w (is_word_char c) ?Z" by (rule less)
      have "\<not> word_match w p (c # ?Z)"
      proof
        assume "word_match w p (c # ?Z)"
        then have "word_match w p (re_sub_word w (r # rs) p (c # cs))"
          by (simp only: out)
        then have "word_match w p (c # cs)"
          by (rule word_match_through_sub[OF w w r])
        with False show False by simp
      qed
      with ih have "\<not> scan_word w p (c # ?Z)" by simp
      with out Cons show ?thesis by simp
    qed
  qed
qed

lemma re_sub_keeps:
  assumes w: "letters w" and w': "letters w'" and r: "\<not> is_word_char r"
    and R: "\<And>Y p. scan_word w' p ((r # rs) @ Y) = scan_word w' False Y"
  shows "\<not> scan_word w' p t \<Longrightarrow> \<not> scan_word w' p (re_sub_word w (r # rs) p t)"
proof (induction "length t" arbitrary: t p rule: less_induct)
  case less
  show ?case
  proof (cases t)
    case Nil
    then show ?thesis by simp
  next
    case (Cons c cs)
    show ?thesis
    proof (cases "word_match w p (c # cs)")
      case True
      let ?q = "last_is_word p (take (length w) (c # cs))"
      let ?rest = "drop (length w - 1) cs"
      let ?Y = "re_sub_word w (r # rs) ?q ?rest"
      have dr: "drop (length w) (c # cs) = ?rest"
        using letters_length[OF w] by (simp add: drop_Cons')
      have "\<not> scan_word w' ?q (drop (length w) (c # cs))"
        using less.prems Cons scan_suffix[of w' p t "length w"] by simp
      then have clean: "\<not> scan_word w' ?q ?rest" by (simp only: dr simp_thms)
      have "length ?rest < length t" using Cons by simp
      then have ih: "\<not> scan_word w' ?q ?Y" using clean by (rule less.hyps)
      from True have "\<not> starts_word (drop (length w) (c # cs))"
        using word_match_letters[OF w] by blast
      then have "\<not> starts_word ?rest" by (simp only: dr simp_thms)
      then have "\<not> starts_word ?Y" by (rule re_sub_starts[OF w])
      then have "scan_word w' False ?Y = scan_word w' ?q ?Y" by (rule scan_flag[OF w'])
      with ih have "\<not> scan_word w' p ((r # rs) @ ?Y)" by (simp only: R simp_thms)
      with True Cons show ?thesis by simp
    next
      case False
      let ?Z = "re_sub_word w (r # rs) (is_word_char c) cs"
      have out: "re_sub_word w (r # rs) p (c # cs) = c # ?Z" using False by simp
      from less.prems Cons have nm: "\<not> word_match w' p (c # cs)"
        and clean: "\<not> scan_word w' (is_word_char c) cs" by simp_all
      have "length cs < length t" using Cons by simp
      then have ih: "\<not> scan_word w' (is_word_char c) ?Z" using clean by (rule less.hyps)
      have "\<not> word_match w' p (c # ?Z)"
      proof
        assume "word_match w' p (c # ?Z)"
        then have "word_match w' p (re_sub_word w (r # rs) p (c # cs))"
          by (simp only: out)
        then have "word_match w' p (c # cs)"
          by (rule word_match_through_sub[OF w w' r])
        with nm show False by simp
      qed
      with ih have "\<not> scan_word w' p (c # ?Z)" by simp
      with out Cons show ?thesis by simp
    qed
  qed
qed

lemma placeholder_Cons: "placeholder = CHR ''['' # ''removed]''"
  by (simp add: placeholder_def)

lemma bracket_not_word: "\<not> is_word_char (CHR ''['')"
  by (simp add: is_word_char_def)

lemma sub_placeholder_removes:
  assumes "plain_word w"
  shows "\<not> scan_word w p (re_sub_word w placeholder p t)"
proof -
  from assms have w: "letters w" and h: "lower_char (hd w) \<noteq> CHR ''r''"
    by (simp_all add: plain_word_def)
  have R: "\<And>Y p. scan_word w p ((CHR ''['' # ''removed]'') @ Y) = scan_word w False Y"
    using scan_placeholder[OF w h] by (simp only: placeholder_Cons)
  show ?thesis
    unfolding placeholder_Cons by (rule re_sub_removes[OF w bracket_not_word R])
qed

lemma sub_placeholder_keeps:
  assumes "plain_word w" "plain_word w'" "\<not> scan_word w' p t"
  shows "\<not> scan_word w' p (re_sub_word w placeholder p t)"
proof -
  from assms have w: "letters w" and w': "letters w'"
    and h: "lower_char (hd w') \<noteq> CHR ''r''"
    by (simp_all add: plain_word_def)
  have R: "\<And>Y p. scan_word w' p ((CHR ''['' # ''removed]'') @ Y) = scan_word w' False Y"
    using scan_placeholder[OF w' h] by (simp only: placeholder_Cons)
  show ?thesis
    unfolding placeholder_Cons
    by (rule re_sub_keeps[OF w w' bracket_not_word R assms(3)])
qed

lemma foldl_sub_keeps:
  assumes "list_all plain_word ws" "plain_word w" "\<not> scan_word w False t"
  shows "\<not> scan_word w False (foldl (\<lambda>t v. re_sub_word v placeholder False t) t ws)"
  using assms
proof (induction ws arbitrary: t)
  case Nil
  then show ?case by simp
next
  case (Cons v vs)
  from Cons.prems have v: "plain_word v" and vs: "list_all plain_word vs" by simp_all
  have "\<not> scan_word w False (re_sub_word v placeholder False t)"
    using v Cons.prems(2,3) by (rule sub_placeholder_keeps)
  with Cons.IH[OF vs Cons.prems(2)] show ?case by simp
qed

lemma foldl_sub_removes:
  assumes "list_all plain_word ws" "w \<in> set ws"
  shows "\<not> scan_word w False (foldl (\<lambda>t v. re_sub_word v placeholder False t) t ws)"
  using assms
proof (induction ws arbitrary: t)
  case Nil
  then show ?case by simp
next
  case (Cons v vs)
  from Cons.prems have v: "plain_word v" and vs: "list_all plain_word vs" by simp_all
  show ?case
  proof (cases "w = v")
    case True
    have "\<not> scan_word w False (re_sub_word w placeholder False t)"
      using v True sub_placeholder_removes by blast
    then have "\<not> scan_word w False
        (foldl (\<lambda>t v. re_sub_word v placeholder False t) (re_sub_word w placeholder False t) vs)"
      using vs v True foldl_sub_keeps by blast
    with True show ?thesis by simp
  next
    case False
    with Cons.prems have "w \<in> set vs" by simp
    from Cons.IH[OF vs this] show ?thesis by simp
  qed
qed

lemma foldl_sub_id:
  "list_all (\<lambda>v. \<not> scan_word v False t) ws \<Longrightarrow>
   foldl (\<lambda>t v. re_sub_word v placeholder False t) t ws = t"
  by (induction ws) (simp_all add: re_sub_id del: re_sub_word.simps)

lemma banned_plain: "list_all plain_word banned_words"
  by (simp add: banned_words_def plain_word_def letters_def is_word_char_def lower_char_def)

lemma clean_output_scan:
  "w \<in> set banned_words \<Longrightarrow> \<not> scan_word w False (clean_output text)"
  unfolding clean_output_def by (rule foldl_sub_removes[OF banned_plain])

lemma starts_word_drop: "starts_word (drop k t) = (k < length t \<and> is_word_char (t ! k))"
proof (cases "k < length t")
  case True
  then have "drop k t = t ! k # drop (Suc k) t" by (simp add: Cons_nth_drop_Suc)
  with True show ?thesis by simp
next
  case False
  then show ?thesis by simp
qed

lemma scan_word_iff:
  assumes w: "letters w"
  shows "scan_word w p t \<longleftrightarrow>
    (\<exists>i. match_literal w (drop i t) \<and> \<not> preceded p t i \<and>
         \<not> starts_word (drop (i + length w) t))"
proof (induction t arbitrary: p)
  case Nil
  have "\<not> match_literal w []" using letters_length[OF w] by (cases w) simp_all
  then show ?case by simp
next
  case (Cons c cs)
  let ?P = "\<lambda>p t i. match_literal w (drop i t) \<and> \<not> preceded p t i \<and>
         \<not> starts_word (drop (i + length w) t)"
  have zero: "?P p (c # cs) 0 \<longleftrightarrow> word_match w p (c # cs)"
    using word_match_letters[OF w, of p "c # cs"]
    by (auto simp: preceded_def)
  have suc: "?P p (c # cs) (Suc j) \<longleftrightarrow> ?P (is_word_char c) cs j" for j
    by (cases j) (simp_all add: preceded_def)
  have "(\<exists>i. ?P p (c # cs) i) \<longleftrightarrow> ?P p (c # cs) 0 \<or> (\<exists>j. ?P p (c # cs) (Suc j))"
  proof
    assume "\<exists>i. ?P p (c # cs) i"
    then obtain i where i: "?P p (c # cs) i" ..
    show "?P p (c # cs) 0 \<or> (\<exists>j. ?P p (c # cs) (Suc j))"
    proof (cases i)
      case 0
      with i show ?thesis by blast
    next
      case (Suc j)
      with i show ?thesis by blast
    qed
  next
    assume "?P p (c # cs) 0 \<or> (\<exists>j. ?P p (c # cs) (Suc j))"
    then show "\<exists>i. ?P p (c # cs) i" by blast
  qed
  also have "\<dots> \<longleftrightarrow> word_match w p (c # cs) \<or> (\<exists>j. ?P (is_word_char c) cs j)"
    by (simp only: zero suc)
  also have "\<dots> \<longleftrightarrow> scan_word w p (c # cs)"
    by (simp only: Cons.IH[symmetric] scan_word.simps)
  finally show ?case by (rule sym)
qed

lemma whole_word_at_iff:
  assumes w: "letters w"
  shows "whole_word_at w t i \<longleftrightarrow>
      (match_literal w (drop i t) \<and> \<not> preceded False t i \<and>
         \<not> starts_word (drop (i + length w) t))"
proof -
  have "(length w \<le> length t - i) = (i + length w \<le> length t)"
    using letters_length[OF w] by arith
  then have "match_literal w (drop i t) \<longleftrightarrow>
     i + length w \<le> length t \<and> str_lower (take (length w) (drop i t)) = str_lower w"
    by (simp add: match_literal_iff)
  moreover have "preceded False t i \<longleftrightarrow> 0 < i \<and> is_word_char (t ! (i - 1))"
    by (simp add: preceded_def)
  ultimately show ?thesis
    unfolding whole_word_at_def starts_word_drop by blast
qed

lemma has_whole_word_iff: "has_whole_word w t \<longleftrightarrow> (\<exists>i. whole_word_at w t i)"
proof
  assume "has_whole_word w t"
  then show "\<exists>i. whole_word_at w t i"
    by (auto simp: has_whole_word_def list_ex_iff)
next
  assume "\<exists>i. whole_word_at w t i"
  then obtain i where i: "whole_word_at w t i" ..
  then have "i + length w \<le> length t" by (simp add: whole_word_at_def)
  then have "i \<in> set [0..<Suc (length t)]" by auto
  with i show "has_whole_word w t"
    unfolding has_whole_word_def list_ex_iff by blast
qed

lemma has_whole_word_scan:
  assumes w: "letters w"
  shows "has_whole_word w t \<longleftrightarrow> scan_word w False t"
  by (simp only: has_whole_word_iff whole_word_at_iff[OF w] scan_word_iff[OF w])

lemma last_is_word_nonempty: "b \<noteq> [] \<Longrightarrow> last_is_word x b = last_is_word y b"
  by (cases b rule: rev_cases) (simp_all add: last_is_word_def)

lemma last_is_word_False: "last_is_word False b \<Longrightarrow> last_is_word x b"
  by (cases b rule: rev_cases) (simp_all add: last_is_word_def)

lemma last_is_word_take_drop:
  "last_is_word (last_is_word p (take k t)) (drop k t) = last_is_word p t"
  using last_is_word_append[of p "take k t" "drop k t"] by simp

lemma last_is_word_drop: "last_is_word False (drop k t) \<Longrightarrow> last_is_word x t"
proof -
  assume a: "last_is_word False (drop k t)"
  then have "last_is_word (last_is_word x (take k t)) (drop k t)"
    by (rule last_is_word_False)
  then show ?thesis by (simp only: last_is_word_take_drop)
qed

lemma word_match_append:
  assumes w: "letters w" and j: "\<not> (last_is_word False xs \<and> starts_word ys)"
    and xne: "xs \<noteq> []"
  shows "word_match w p (xs @ ys) = word_match w p xs"
proof (cases "length w \<le> length xs")
  case True
  note le = True
  have ml: "match_literal w (xs @ ys) = match_literal w xs"
    using le by (rule match_literal_append)
  show ?thesis
  proof (cases "match_literal w xs")
    case False
    with ml show ?thesis by (simp add: word_match_letters[OF w])
  next
    case True
    have "starts_word (drop (length w) (xs @ ys)) = starts_word (drop (length w) xs)"
    proof (cases "length w = length xs")
      case False
      with le have "drop (length w) xs \<noteq> []" by simp
      with le show ?thesis by (simp add: starts_word_append)
    next
      case eq: True
      from w have all: "list_all is_word_char w" and ne: "w \<noteq> []"
        by (simp_all add: letters_def)
      have "list_all is_word_char (take (length w) xs)"
        using True all by (rule match_literal_word)
      with eq have "list_all is_word_char xs" by simp
      moreover from eq ne have "xs \<noteq> []" by auto
      ultimately have "last_is_word False xs" using last_is_word_all by blast
      with j have "\<not> starts_word ys" by simp
      with eq show ?thesis by simp
    qed
    with ml show ?thesis by (simp add: word_match_letters[OF w])
  qed
next
  case False
  then have gt: "length xs < length w" by simp
  have nx: "\<not> match_literal w xs"
    using gt match_literal_length[of w xs] by auto
  have "\<not> match_literal w (xs @ ys)"
  proof
    assume m: "match_literal w (xs @ ys)"
    from w have all: "list_all is_word_char w" by (simp add: letters_def)
    have aw: "list_all is_word_char (take (length w) (xs @ ys))"
      using m all by (rule match_literal_word)
    from match_literal_length[OF m] gt have yne: "ys \<noteq> []" by auto
    from aw gt have xw: "list_all is_word_char xs"
      and yw: "list_all is_word_char (take (length w - length xs) ys)" by simp_all
    from gt obtain k where k: "length w - length xs = Suc k"
      by (cases "length w - length xs") simp_all
    from yne yw k have "starts_word ys" by (cases ys) simp_all
    moreover have "last_is_word False xs"
      using xne xw by (rule last_is_word_all)
    ultimately show False using j by blast
  qed
  with nx show ?thesis by (simp add: word_match_letters[OF w])
qed

lemma take_app_le: "n \<le> length xs \<Longrightarrow> take n (xs @ ys) = take n xs"
  by simp

lemma re_sub_split:
  assumes w: "letters w"
  shows "\<not> (last_is_word False xs \<and> starts_word ys) \<Longrightarrow>
    re_sub_word w R p (xs @ ys) = re_sub_word w R p xs @ re_sub_word w R (last_is_word p xs) ys"
proof (induction "length xs" arbitrary: xs p rule: less_induct)
  case less
  note j = less.prems
  show ?case
  proof (cases xs)
    case Nil
    then show ?thesis by simp
  next
    case (Cons c cs)
    let ?n = "length w"
    have wm: "word_match w p ((c # cs) @ ys) = word_match w p (c # cs)"
      using w j Cons by (intro word_match_append) simp_all
    show ?thesis
    proof (cases "word_match w p (c # cs)")
      case True
      then have "match_literal w (c # cs)" by (simp add: word_match_def)
      then have le: "?n \<le> length (c # cs)" by (rule match_literal_length)
      let ?q = "last_is_word p (take ?n (c # cs))"
      let ?rest = "drop (?n - 1) cs"
      have dr: "drop ?n (c # cs) = ?rest"
        using letters_length[OF w] by (simp add: drop_Cons')
      have jr: "\<not> (last_is_word False ?rest \<and> starts_word ys)"
      proof
        assume a: "last_is_word False ?rest \<and> starts_word ys"
        then have "last_is_word False (drop ?n (c # cs))" by (simp only: dr)
        then have "last_is_word False (c # cs)" by (rule last_is_word_drop)
        with a j Cons show False by simp
      qed
      have "length ?rest < length xs" using Cons by simp
      from less.hyps[OF this jr]
      have ih: "re_sub_word w R ?q (?rest @ ys) =
          re_sub_word w R ?q ?rest @ re_sub_word w R (last_is_word ?q ?rest) ys" .
      have lq: "last_is_word ?q ?rest = last_is_word p (c # cs)"
        using last_is_word_take_drop[of p ?n "c # cs"] by (simp only: dr)
      have tk: "take ?n ((c # cs) @ ys) = take ?n (c # cs)" using le by (rule take_app_le)
      have dk: "drop (?n - 1) (cs @ ys) = ?rest @ ys" using le by simp
      have "re_sub_word w R p ((c # cs) @ ys) = R @ re_sub_word w R ?q (?rest @ ys)"
        using True wm tk dk by simp
      also have "\<dots> = R @ re_sub_word w R ?q ?rest @ re_sub_word w R (last_is_word p (c # cs)) ys"
        by (simp only: ih lq)
      also have "\<dots> = re_sub_word w R p (c # cs) @ re_sub_word w R (last_is_word p (c # cs)) ys"
        using True by simp
      finally show ?thesis using Cons by simp
    next
      case False
      have jr: "\<not> (last_is_word False cs \<and> starts_word ys)"
      proof
        assume a: "last_is_word False cs \<and> starts_word ys"
        then have "last_is_word (is_word_char c) cs" using last_is_word_False by blast
        with a j Cons show False by simp
      qed
      have "length cs < length xs" using Cons by simp
      from less.hyps[OF this jr]
      have ih: "re_sub_word w R (is_word_char c) (cs @ ys) =
          re_sub_word w R (is_word_char c) cs @
          re_sub_word w R (last_is_word (is_word_char c) cs) ys" .
      have "re_sub_word w R p ((c # cs) @ ys) = c # re_sub_word w R (is_word_char c) (cs @ ys)"
        using False wm by simp
      also have "\<dots> = re_sub_word w R p (c # cs) @ re_sub_word w R (last_is_word p (c # cs)) ys"
        using False by (simp add: ih)
      finally show ?thesis using Cons by simp
    qed
  qed
qed

lemma re_sub_all_word_True:
  assumes w: "letters w"
  shows "list_all is_word_char cs \<Longrightarrow> re_sub_word w R True cs = cs"
  by (induction cs) (simp_all add: re_sub_True_Cons[OF w] del: re_sub_word.simps(2))

lemma re_sub_longer_word:
  assumes w: "letters w" and all: "list_all is_word_char W" and len: "length W \<noteq> length w"
  shows "re_sub_word w R p W = W"
proof (cases W)
  case Nil
  then show ?thesis by simp
next
  case (Cons c cs)
  have "\<not> word_match w p W"
  proof
    assume m: "word_match w p W"
    then have ml: "match_literal w W" and ns: "\<not> starts_word (drop (length w) W)"
      using word_match_letters[OF w] by blast+
    from match_literal_length[OF ml] len have "length w < length W" by simp
    then obtain d ds where d: "drop (length w) W = d # ds"
      by (cases "drop (length w) W") simp_all
    then have "d \<in> set W" by (metis in_set_dropD list.set_intros(1))
    with all have "is_word_char d" by (simp add: list_all_iff)
    with ns d show False by simp
  qed
  with Cons all show ?thesis
    by (simp add: re_sub_all_word_True[OF w])
qed

lemma re_sub_ends:
  assumes w: "letters w" and R: "R \<noteq> []" "\<not> last_is_word False R"
  shows "\<not> last_is_word x t \<Longrightarrow> \<not> last_is_word x (re_sub_word w R p t)"
proof (induction "length t" arbitrary: t p x rule: less_induct)
  case less
  show ?case
  proof (cases t)
    case Nil
    with less.prems show ?thesis by simp
  next
    case (Cons c cs)
    show ?thesis
    proof (cases "word_match w p (c # cs)")
      case True
      let ?q = "last_is_word p (take (length w) (c # cs))"
      let ?rest = "drop (length w - 1) cs"
      let ?Y = "re_sub_word w R ?q ?rest"
      have dr: "drop (length w) (c # cs) = ?rest"
        using letters_length[OF w] by (simp add: drop_Cons')
      have "\<not> last_is_word False ?rest"
      proof
        assume "last_is_word False ?rest"
        then have "last_is_word False (drop (length w) (c # cs))" by (simp only: dr)
        then have "last_is_word x (c # cs)" by (rule last_is_word_drop)
        with less.prems Cons show False by simp
      qed
      moreover have "length ?rest < length t" using Cons by simp
      ultimately have "\<not> last_is_word False ?Y" using less.hyps by blast
      moreover have "last_is_word x (R @ ?Y) = last_is_word False ?Y"
        using R last_is_word_nonempty[of R x False] by (simp add: last_is_word_append)
      ultimately show ?thesis using True Cons by simp
    next
      case False
      from less.prems Cons have "\<not> last_is_word (is_word_char c) cs" by simp
      moreover have "length cs < length t" using Cons by simp
      ultimately have "\<not> last_is_word (is_word_char c) (re_sub_word w R (is_word_char c) cs)"
        using less.hyps by blast
      with False Cons show ?thesis by simp
    qed
  qed
qed

lemma re_sub_sandwich:
  assumes w: "letters w" and A: "\<not> ends_word A" and W: "list_all is_word_char W" "W \<noteq> []"
    and len: "length W \<noteq> length w" and B: "\<not> starts_word B"
  shows "re_sub_word w R False (A @ W @ B) =
         re_sub_word w R False A @ W @ re_sub_word w R False B"
proof -
  from A have lA: "last_is_word False A = False" by (simp add: ends_word_def)
  have lW: "last_is_word False W = True"
    using W(2,1) last_is_word_all by blast
  have "re_sub_word w R False (A @ W @ B) =
        re_sub_word w R False A @ re_sub_word w R (last_is_word False A) (W @ B)"
    using A by (intro re_sub_split[OF w]) (simp add: ends_word_def)
  also have "re_sub_word w R (last_is_word False A) (W @ B) =
        re_sub_word w R False W @ re_sub_word w R (last_is_word False W) B"
    unfolding lA using B by (intro re_sub_split[OF w]) simp
  also have "re_sub_word w R False W = W"
    using w W(1) len by (rule re_sub_longer_word)
  also have "re_sub_word w R (last_is_word False W) B = re_sub_word w R False B"
    using w B by (rule re_sub_flag)
  finally show ?thesis .
qed

lemma placeholder_ends: "placeholder \<noteq> []" "\<not> last_is_word False placeholder"
  by (simp_all add: placeholder_def is_word_char_def)

lemma foldl_sandwich:
  assumes W: "list_all is_word_char W" "W \<noteq> []"
  shows "list_all (\<lambda>v. letters v \<and> length v \<noteq> length W) ws \<Longrightarrow>
     \<not> ends_word A \<Longrightarrow> \<not> starts_word B \<Longrightarrow>
     foldl (\<lambda>t v. re_sub_word v placeholder False t) (A @ W @ B) ws =
     foldl (\<lambda>t v. re_sub_word v placeholder False t) A ws @ W @
     foldl (\<lambda>t v. re_sub_word v placeholder False t) B ws"
proof (induction ws arbitrary: A B)
  case Nil
  then show ?case by simp
next
  case (Cons v vs)
  from Cons.prems(1) have v: "letters v" and len: "length W \<noteq> length v"
    and vs: "list_all (\<lambda>v. letters v \<and> length v \<noteq> length W) vs" by auto
  let ?A = "re_sub_word v placeholder False A"
  let ?B = "re_sub_word v placeholder False B"
  have step: "re_sub_word v placeholder False (A @ W @ B) = ?A @ W @ ?B"
    using v Cons.prems(2) W len Cons.prems(3) by (rule re_sub_sandwich)
  have A': "\<not> ends_word ?A"
    using re_sub_ends[OF v placeholder_ends, of False A False] Cons.prems(2)
    by (simp add: ends_word_def)
  have B': "\<not> starts_word ?B"
    using v Cons.prems(3) by (rule re_sub_starts)
  from Cons.IH[OF vs A' B'] step show ?case by simp
qed

lemma before_word_tail: "before_word pre @ word_tail pre = pre"
proof -
  have "rev (takeWhile is_word_char (rev pre) @ dropWhile is_word_char (rev pre)) = pre"
    by simp
  then show ?thesis by (simp only: before_word_def word_tail_def rev_append)
qed

lemma word_head_after: "word_head post @ after_word post = post"
  by (simp add: word_head_def after_word_def)

lemma before_word_ends: "\<not> ends_word (before_word pre)"
proof (cases "dropWhile is_word_char (rev pre)")
  case Nil
  then have "before_word pre = []" by (simp only: before_word_def rev.simps)
  then show ?thesis by (simp add: ends_word_def)
next
  case (Cons c cs)
  then have "\<not> is_word_char c"
    using hd_dropWhile[of is_word_char "rev pre"] by simp
  with Cons show ?thesis
    by (simp add: ends_word_def before_word_def last_is_word_def)
qed

lemma after_word_starts: "\<not> starts_word (after_word post)"
proof (cases "dropWhile is_word_char post")
  case Nil
  then have "after_word post = []" by (simp only: after_word_def)
  then show ?thesis by simp
next
  case (Cons c cs)
  then have "\<not> is_word_char c"
    using hd_dropWhile[of is_word_char post] by simp
  with Cons show ?thesis by (simp add: after_word_def)
qed

lemma word_tail_all: "list_all is_word_char (word_tail pre)"
  by (auto simp: word_tail_def list_all_iff dest: set_takeWhileD)

lemma word_head_all: "list_all is_word_char (word_head post)"
  by (auto simp: word_head_def list_all_iff dest: set_takeWhileD)

lemma ends_word_tail: "ends_word pre \<Longrightarrow> word_tail pre \<noteq> []"
  by (cases pre rule: rev_cases) (simp_all add: ends_word_def last_is_word_def word_tail_def)

lemma starts_word_head: "starts_word post \<Longrightarrow> word_head post \<noteq> []"
  by (cases post) (simp_all add: word_head_def)

lemma occurrence_letters:
  assumes w: "letters w" and occ: "str_lower occ = str_lower w"
  shows "list_all is_word_char occ" "length occ = length w"
proof -
  from occ show len: "length occ = length w"
    unfolding str_lower_def by (rule map_eq_imp_length_eq)
  with occ have "match_literal w occ" by (simp add: match_literal_iff)
  moreover from w have "list_all is_word_char w" by (simp add: letters_def)
  ultimately have "list_all is_word_char (take (length w) occ)" by (rule match_literal_word)
  with len show "list_all is_word_char occ" by simp
qed

lemma banned_four: "list_all (\<lambda>v. letters v \<and> length v = 4) banned_words"
  by (simp add: banned_words_def letters_def is_word_char_def)

lemma clean_output_embedded:
  assumes w: "w \<in> set banned_words" and occ: "str_lower occ = str_lower w"
    and emb: "embedded pre post"
  shows "clean_output (pre @ occ @ post) =
     clean_output (before_word pre) @ word_tail pre @ occ @ word_head post @
     clean_output (after_word post)"
proof -
  let ?W = "word_tail pre @ occ @ word_head post"
  from w banned_four have lw: "letters w" and n4: "length w = 4"
    by (auto simp: list_all_iff)
  have ow: "list_all is_word_char occ" and ol: "length occ = length w"
    using occurrence_letters[OF lw occ] by simp_all
  have Wall: "list_all is_word_char ?W"
    using ow word_tail_all word_head_all by simp
  have Wne: "?W \<noteq> []" using ol n4 by auto
  have "word_tail pre \<noteq> [] \<or> word_head post \<noteq> []"
    using emb ends_word_tail starts_word_head by (auto simp: embedded_def)
  then have "4 < length ?W" using ol n4 by auto
  then have ws: "list_all (\<lambda>v. letters v \<and> length v \<noteq> length ?W) banned_words"
    using banned_four by (auto simp: list_all_iff)
  have "pre @ occ @ post = before_word pre @ ?W @ after_word post"
    using before_word_tail[of pre] word_head_after[of post] by (metis append.assoc)
  then have "clean_output (pre @ occ @ post) =
      clean_output (before_word pre) @ ?W @ clean_output (after_word post)"
    unfolding clean_output_def
    using foldl_sandwich[OF Wall Wne ws before_word_ends after_word_starts] by simp
  then show ?thesis by simp
qed

text \<open>
  C2: for every input text, the output of \<open>clean_output\<close> has no case-insensitive
  whole-word occurrence of a banned word; and an occurrence of a banned word that is
  preceded or followed by a word character is left as it is: the whole run of word
  characters around it is copied to the output, between the filtered text before the run
  and the filtered text after it.
\<close>

theorem clean_output_whole_words:
  assumes "w \<in> set banned_words"
  shows "\<not> has_whole_word w (clean_output text) \<and>
    (str_lower occ = str_lower w \<longrightarrow> embedded pre post \<longrightarrow>
     clean_output (pre @ occ @ post) =
       clean_output (before_word pre) @ word_tail pre @ occ @ word_head post @
       clean_output (after_word post))"
proof -
  from assms banned_plain have "letters w"
    by (auto simp: list_all_iff plain_word_def)
  then have "has_whole_word w (clean_output text) = scan_word w False (clean_output text)"
    by (rule has_whole_word_scan)
  with clean_output_scan[OF assms] have "\<not> has_whole_word w (clean_output text)"
    by simp
  with clean_output_embedded[OF assms] show ?thesis by blast
qed

theorem clean_output_whole_words_witness:
  "''hate'' \<in> set banned_words \<and>
   \<not> has_whole_word ''hate'' (clean_output ''I HATE it'') \<and>
   str_lower ''Hate'' = str_lower ''hate'' \<and> embedded ''I hate un'' ''ful kills'' \<and>
   clean_output (''I hate un'' @ ''Hate'' @ ''ful kills'') =
     clean_output ''I hate '' @ ''un'' @ ''Hate'' @ ''ful'' @ clean_output '' kills''"
proof -
  have h1: "''hate'' \<in> set banned_words" by (simp add: banned_words_def)
  have h2: "str_lower ''Hate'' = str_lower ''hate''" by code_simp
  have h3: "embedded ''I hate un'' ''ful kills''" by code_simp
  have e1: "before_word ''I hate un'' = ''I hate ''" by code_simp
  have e2: "word_tail ''I hate un'' = ''un''" by code_simp
  have e3: "word_head ''ful kills'' = ''ful''" by code_simp
  have e4: "after_word ''ful kills'' = '' kills''" by code_simp
  from clean_output_whole_words[OF h1, of "''I HATE it''" "''Hate''" "''I hate un''" "''ful kills''"]
    h1 h2 h3
  show ?thesis by (simp only: e1 e2 e3 e4 simp_thms)
qed

text \<open>
  C8: \<open>clean_output\<close> is idempotent: filtering a filtered text changes nothing.
\<close>

theorem clean_output_idempotent: "clean_output (clean_output text) = clean_output text"
proof -
  have "list_all (\<lambda>v. \<not> scan_word v False (clean_output text)) banned_words"
    using clean_output_scan by (simp add: list_all_iff)
  then show ?thesis
    using foldl_sub_id[of "clean_output text" banned_words]
    by (simp add: clean_output_def)
qed

theorem clean_output_idempotent_witness:
  "clean_output (clean_output ''I hate it'') = clean_output ''I hate it'' \<and>
   clean_output ''I hate it'' = ''I [removed] it'' \<and>
   clean_output ''I [removed] it'' = ''I [removed] it''"
proof -
  have e: "clean_output ''I hate it'' = ''I [removed] it''" by code_simp
  from clean_output_idempotent[of "''I hate it''"] have "clean_output (clean_output ''I hate it'') = clean_output ''I hate it''" .
  then show ?thesis by (simp only: e simp_thms)
qed

section \<open>The post splitter\<close>

lemma slice_to_nonneg: "0 \<le> n \<Longrightarrow> slice_to n xs = take (nat n) xs"
  by (simp add: slice_to_def)

lemma set_slice_to: "set (slice_to n xs) \<subseteq> set xs"
  by (simp add: slice_to_def set_take_subset)


lemma long_fragments_long: "p \<in> set (long_fragments fs) \<Longrightarrow> 30 < length p"
  by (auto simp: long_fragments_def)

lemma subseq_long_fragments: "subseq (long_fragments fs) (map strip fs)"
  unfolding long_fragments_def by (intro subseq_map subseq_filter_left)

lemma subseq_slice_to: "subseq (slice_to n xs) xs"
  by (simp add: slice_to_def prefix_imp_subseq take_is_prefix)









lemma no_marker_inside_iff:
  "no_marker_inside pre raw \<longleftrightarrow> (\<forall>i<length pre. marker_match (drop i raw) = None)"
  by (auto simp: no_marker_inside_def list_all_iff)




lemma digit_not_space: "is_digit c \<Longrightarrow> \<not> is_space c"
  by (auto simp: is_digit_def is_space_def Let_def)

lemma terminator_not_digit: "is_terminator c \<Longrightarrow> \<not> is_digit c"
  by (auto simp: is_terminator_def is_digit_def)

lemma decimal_digit_iff: "decimal_digit c \<longleftrightarrow> is_digit c"
proof
  assume "decimal_digit c"
  then show "is_digit c" by (auto simp: decimal_digit_def is_digit_def)
next
  assume d: "is_digit c"
  define n where "n = (of_char c :: nat)"
  from d have "48 \<le> n \<and> n \<le> 57" by (simp add: is_digit_def n_def Let_def)
  then have "n = 48 \<or> n = 49 \<or> n = 50 \<or> n = 51 \<or> n = 52 \<or> n = 53 \<or> n = 54 \<or> n = 55 \<or>
    n = 56 \<or> n = 57" by arith
  moreover have "c = char_of n" by (simp add: n_def)
  moreover have "char_of (48::nat) = CHR ''0''" "char_of (49::nat) = CHR ''1''"
    "char_of (50::nat) = CHR ''2''" "char_of (51::nat) = CHR ''3''"
    "char_of (52::nat) = CHR ''4''" "char_of (53::nat) = CHR ''5''"
    "char_of (54::nat) = CHR ''6''" "char_of (55::nat) = CHR ''7''"
    "char_of (56::nat) = CHR ''8''" "char_of (57::nat) = CHR ''9''"
    by code_simp+
  ultimately show "decimal_digit c"
    by (auto simp: decimal_digit_def)
qed

lemma numbered_marker_alt:
  "numbered_marker m =
     (case m of
        [] \<Rightarrow> False
      | c # body \<Rightarrow>
          c = newline \<and>
          (case rev body of
             [] \<Rightarrow> False
           | t # front \<Rightarrow>
               is_terminator t \<and> takeWhile is_digit front \<noteq> [] \<and>
               list_all is_space (dropWhile is_digit front)))"
proof -
  have eq: "decimal_digit = is_digit" by (rule ext) (rule decimal_digit_iff)
  show ?thesis
    unfolding numbered_marker_def eq newline_def is_terminator_def by (rule refl)
qed

lemma numbered_marker_parts:
  "numbered_marker m \<longleftrightarrow>
   (\<exists>sp ds t. m = newline # sp @ ds @ [t] \<and> list_all is_space sp \<and> ds \<noteq> [] \<and>
      list_all is_digit ds \<and> is_terminator t)"
proof
  assume nm: "numbered_marker m"
  then obtain body where m: "m = newline # body" by (cases m) (auto simp: numbered_marker_alt)
  from nm m obtain t front where rb: "rev body = t # front" and t: "is_terminator t"
    and d: "takeWhile is_digit front \<noteq> []"
    and s: "list_all is_space (dropWhile is_digit front)"
    by (cases "rev body") (auto simp: numbered_marker_alt)
  let ?ds = "rev (takeWhile is_digit front)" and ?sp = "rev (dropWhile is_digit front)"
  have "front = takeWhile is_digit front @ dropWhile is_digit front" by simp
  then have "rev front = ?sp @ ?ds" by (metis rev_append)
  moreover from rb have "body = rev front @ [t]" by (metis rev.simps(2) rev_rev_ident)
  ultimately have "m = newline # ?sp @ ?ds @ [t]" using m by simp
  moreover have "list_all is_space ?sp" using s by (simp add: list_all_iff)
  moreover have "?ds \<noteq> []" using d by simp
  moreover have "list_all is_digit ?ds" by (auto simp: list_all_iff dest: set_takeWhileD)
  ultimately show "\<exists>sp ds t. m = newline # sp @ ds @ [t] \<and> list_all is_space sp \<and> ds \<noteq> [] \<and>
      list_all is_digit ds \<and> is_terminator t" using t by blast
next
  assume "\<exists>sp ds t. m = newline # sp @ ds @ [t] \<and> list_all is_space sp \<and> ds \<noteq> [] \<and>
      list_all is_digit ds \<and> is_terminator t"
  then obtain sp ds t where m: "m = newline # sp @ ds @ [t]" and sp: "list_all is_space sp"
    and ne: "ds \<noteq> []" and ds: "list_all is_digit ds" and t: "is_terminator t" by blast
  have rb: "rev (sp @ ds @ [t]) = t # rev ds @ rev sp" by simp
  have nd: "\<forall>x\<in>set (rev sp). \<not> is_digit x"
    using sp digit_not_space by (auto simp: list_all_iff)
  have tw: "takeWhile is_digit (rev ds @ rev sp) = rev ds"
  proof -
    have "takeWhile is_digit (rev ds @ rev sp) = rev ds @ takeWhile is_digit (rev sp)"
      using ds by (intro takeWhile_append2) (simp add: list_all_iff)
    moreover have "takeWhile is_digit (rev sp) = []"
      using nd by (cases "rev sp") auto
    ultimately show ?thesis by simp
  qed
  have dw: "dropWhile is_digit (rev ds @ rev sp) = rev sp"
  proof -
    have "dropWhile is_digit (rev ds @ rev sp) = dropWhile is_digit (rev sp)"
      using ds by (intro dropWhile_append2) (simp add: list_all_iff)
    moreover have "dropWhile is_digit (rev sp) = rev sp"
      using nd by (cases "rev sp") auto
    ultimately show ?thesis by simp
  qed
  show "numbered_marker m"
    unfolding numbered_marker_alt m using t ne sp
    by (simp only: list.case rb tw dw) (simp add: list_all_iff)
qed


lemma dropWhile_spaces_digits:
  assumes "list_all is_space sp" "ds \<noteq> []" "list_all is_digit ds"
  shows "dropWhile is_space (sp @ ds @ xs) = ds @ xs"
proof -
  from assms(2,3) obtain d ds' where ds: "ds = d # ds'" and d: "is_digit d"
    by (cases ds) auto
  have "dropWhile is_space (sp @ ds @ xs) = dropWhile is_space (ds @ xs)"
    using assms(1) by (intro dropWhile_append2) (simp add: list_all_iff)
  also have "\<dots> = ds @ xs"
    using d digit_not_space by (simp add: ds)
  finally show ?thesis .
qed

lemma marker_match_numbered:
  assumes "numbered_marker m"
  shows "marker_match (m @ rest) = Some rest"
proof -
  from assms obtain sp ds t where m: "m = newline # sp @ ds @ [t]"
    and sp: "list_all is_space sp" and ne: "ds \<noteq> []" and ds: "list_all is_digit ds"
    and t: "is_terminator t"
    unfolding numbered_marker_parts by blast
  have dw: "dropWhile is_space (sp @ ds @ t # rest) = ds @ t # rest"
    using sp ne ds by (rule dropWhile_spaces_digits)
  have nt: "\<not> is_digit t" using t by (rule terminator_not_digit)
  have tk: "takeWhile is_digit (ds @ t # rest) = ds"
  proof -
    have "takeWhile is_digit (ds @ t # rest) = ds @ takeWhile is_digit (t # rest)"
      using ds by (intro takeWhile_append2) (simp add: list_all_iff)
    with nt show ?thesis by simp
  qed
  have dk: "dropWhile is_digit (ds @ t # rest) = t # rest"
  proof -
    have "dropWhile is_digit (ds @ t # rest) = dropWhile is_digit (t # rest)"
      using ds by (intro dropWhile_append2) (simp add: list_all_iff)
    with nt show ?thesis by simp
  qed
  have "m @ rest = newline # sp @ ds @ t # rest" by (simp add: m)
  then show ?thesis
    using ne t by (simp add: marker_match_def dw tk dk)
qed

lemma marker_match_parts:
  assumes "marker_match t = Some rest"
  shows "\<exists>m. t = m @ rest \<and> numbered_marker m"
proof -
  from assms obtain cs where t: "t = newline # cs"
    by (cases t) (auto simp: marker_match_def split: if_splits)
  let ?sp = "takeWhile is_space cs" and ?r = "dropWhile is_space cs"
  let ?ds = "takeWhile is_digit ?r"
  from assms t have ne: "?ds \<noteq> []"
    by (auto simp: marker_match_def Let_def split: if_splits)
  from assms t ne obtain e where e: "dropWhile is_digit ?r = e # rest" and te: "is_terminator e"
    by (auto simp: marker_match_def Let_def split: if_splits list.splits)
  have "?r = ?ds @ dropWhile is_digit ?r" by simp
  with e have r: "?r = ?ds @ e # rest" by simp
  have "cs = ?sp @ ?r" by simp
  with r have "cs = ?sp @ ?ds @ e # rest" by simp
  with t have eq: "t = (newline # ?sp @ ?ds @ [e]) @ rest" by simp
  have "list_all is_space ?sp" by (auto simp: list_all_iff dest: set_takeWhileD)
  moreover have "list_all is_digit ?ds" by (auto simp: list_all_iff dest: set_takeWhileD)
  ultimately have "numbered_marker (newline # ?sp @ ?ds @ [e])"
    unfolding numbered_marker_parts using ne te by blast
  with eq show ?thesis by blast
qed

lemma begins_marker_iff: "begins_marker t \<longleftrightarrow> marker_match t \<noteq> None"
proof
  assume "begins_marker t"
  then obtain k where "numbered_marker (take k t)"
    unfolding begins_marker_def list_ex_iff by blast
  then have "marker_match (take k t @ drop k t) = Some (drop k t)"
    by (rule marker_match_numbered)
  then show "marker_match t \<noteq> None" by simp
next
  assume "marker_match t \<noteq> None"
  then obtain rest where "marker_match t = Some rest" by blast
  then obtain m where m: "t = m @ rest" and nm: "numbered_marker m"
    using marker_match_parts by blast
  from m have "take (length m) t = m" by simp
  moreover from m have "length m \<in> set [0..<Suc (length t)]" by auto
  ultimately show "begins_marker t"
    using nm unfolding begins_marker_def list_ex_iff by metis
qed

lemma marker_free_iff: "marker_free s rest \<longleftrightarrow> no_marker_inside s (s @ rest)"
  by (simp add: marker_free_def no_marker_inside_def begins_marker_iff)

lemma re_split_through:
  "no_marker_inside pre (pre @ m) \<Longrightarrow> re_split_from acc (pre @ m) = re_split_from (acc @ pre) m"
proof (induction pre arbitrary: acc)
  case Nil
  show ?case by simp
next
  case (Cons p ps)
  from Cons.prems have all: "\<And>i. i < Suc (length ps) \<Longrightarrow> marker_match (drop i (p # ps @ m)) = None"
    unfolding no_marker_inside_iff by simp
  from all[of 0] have none: "marker_match (p # ps @ m) = None" by simp
  have "\<forall>i<length ps. marker_match (drop i (ps @ m)) = None"
  proof (intro allI impI)
    fix i assume "i < length ps"
    then have "marker_match (drop (Suc i) (p # ps @ m)) = None" using all[of "Suc i"] by simp
    then show "marker_match (drop i (ps @ m)) = None" by simp
  qed
  then have "no_marker_inside ps (ps @ m)"
    by (simp only: no_marker_inside_iff)
  from Cons.IH[OF this, of "acc @ [p]"] none show ?case by simp
qed

lemma re_split_numbered:
  "marker_free s (numbered_text items) \<Longrightarrow> well_numbered items \<Longrightarrow>
   re_split_from acc (s @ numbered_text items) = (acc @ s) # map snd items"
proof (induction items arbitrary: s acc)
  case Nil
  then have "no_marker_inside s (s @ [])" by (simp only: marker_free_iff numbered_text.simps)
  then have "re_split_from acc (s @ []) = re_split_from (acc @ s) []" by (rule re_split_through)
  then show ?case by simp
next
  case (Cons item items)
  obtain m s' where item: "item = (m, s')" by (cases item)
  let ?rest = "s' @ numbered_text items"
  from Cons.prems(2) item have nm: "numbered_marker m"
    and mf: "marker_free s' (numbered_text items)" and wn: "well_numbered items" by simp_all
  have mm: "marker_match (m @ ?rest) = Some ?rest" using nm by (rule marker_match_numbered)
  then obtain c cs where mc: "m @ ?rest = c # cs"
    by (cases "m @ ?rest") (auto simp: marker_match_def)
  from Cons.prems(1) item have "no_marker_inside s (s @ m @ ?rest)"
    by (simp add: marker_free_iff)
  then have "re_split_from acc (s @ m @ ?rest) = re_split_from (acc @ s) (m @ ?rest)"
    by (rule re_split_through)
  also have "\<dots> = (acc @ s) # re_split_from [] ?rest"
    using mm unfolding mc by simp
  also have "re_split_from [] ?rest = ([] @ s') # map snd items"
    using mf wn by (rule Cons.IH)
  finally show ?case using item by simp
qed

lemma numbered_text_exists:
  "\<exists>pre items. raw = pre @ numbered_text items \<and> marker_free pre (numbered_text items) \<and>
     well_numbered items"
proof (induction "length raw" arbitrary: raw rule: less_induct)
  case less
  show ?case
  proof (cases "\<exists>i<length raw. marker_match (drop i raw) \<noteq> None")
    case False
    then have "no_marker_inside raw (raw @ [])" by (simp add: no_marker_inside_iff)
    then have "marker_free raw (numbered_text [])" by (simp add: marker_free_iff)
    moreover have "raw = raw @ numbered_text []" by simp
    ultimately show ?thesis using well_numbered.simps(1) by blast
  next
    case True
    define P where "P = (\<lambda>i. i < length raw \<and> marker_match (drop i raw) \<noteq> None)"
    from True have ex: "\<exists>i. P i" by (simp add: P_def)
    define i where "i = (LEAST i. P i)"
    from ex have Pi: "P i" unfolding i_def by (metis LeastI)
    have least: "\<not> P j" if "j < i" for j
      using that not_less_Least unfolding i_def by blast
    from Pi obtain rest where mm: "marker_match (drop i raw) = Some rest" and il: "i < length raw"
      by (auto simp: P_def)
    from mm obtain m where dm: "drop i raw = m @ rest" and nm: "numbered_marker m"
      using marker_match_parts by blast
    have "length rest < length (drop i raw)" using mm by (rule marker_match_shorter)
    then have "length rest < length raw" by simp
    from less[OF this] obtain s items where rest: "rest = s @ numbered_text items"
      and mf: "marker_free s (numbered_text items)" and wn: "well_numbered items" by blast
    let ?items = "(m, s) # items"
    have raw: "raw = take i raw @ numbered_text ?items"
      using dm rest by (metis append_take_drop_id numbered_text.simps(2))
    have "\<forall>j<length (take i raw). marker_match (drop j (take i raw @ numbered_text ?items)) = None"
    proof (intro allI impI)
      fix j assume "j < length (take i raw)"
      then have j: "j < i" by simp
      with il have "j < length raw" by simp
      with least[OF j] have "marker_match (drop j raw) = None" by (simp add: P_def)
      with raw show "marker_match (drop j (take i raw @ numbered_text ?items)) = None" by simp
    qed
    then have "marker_free (take i raw) (numbered_text ?items)"
      by (simp only: marker_free_iff no_marker_inside_iff)
    moreover have "well_numbered ?items" using nm mf wn by simp
    ultimately show ?thesis using raw by blast
  qed
qed

lemma strip_ends:
  assumes "strip s \<noteq> []"
  shows "\<not> is_space (hd (strip s)) \<and> \<not> is_space (last (strip s))"
proof -
  let ?r = "dropWhile is_space s"
  let ?d = "dropWhile is_space (rev ?r)"
  from assms have dne: "?d \<noteq> []" by (simp add: strip_def)
  then have l: "\<not> is_space (hd ?d)" by (rule hd_dropWhile)
  have "last (strip s) = hd ?d" using dne by (simp add: strip_def last_rev)
  with l have last: "\<not> is_space (last (strip s))" by simp
  have "rev (takeWhile is_space (rev ?r) @ ?d) = ?r" by simp
  then have r: "strip s @ rev (takeWhile is_space (rev ?r)) = ?r"
    by (simp only: strip_def rev_append)
  with assms have rne: "?r \<noteq> []" by (metis append_is_Nil_conv)
  then have "\<not> is_space (hd ?r)" by (rule hd_dropWhile)
  moreover from r assms have "hd ?r = hd (strip s)" by (metis hd_append2)
  ultimately have "\<not> is_space (hd (strip s))" by simp
  with last show ?thesis by blast
qed

lemma long_fragments_trimmed:
  assumes "p \<in> set (long_fragments fs)"
  shows "30 < length p \<and> \<not> is_space (hd p) \<and> \<not> is_space (last p)"
proof -
  from assms obtain f where p: "p = strip f" and len: "30 < length (strip f)"
    by (auto simp: long_fragments_def)
  from len have "strip f \<noteq> []" by auto
  from strip_ends[OF this] p len show ?thesis by simp
qed

text \<open>
  C3: a raw text made of a preamble and numbered segments, each behind its marker, splits
  into the preamble and the segments. When at least \<open>n\<close> of these have a trimmed length
  above 30, the splitter returns exactly \<open>n\<close> entries: the first \<open>n\<close> of the long ones,
  trimmed, in their original order; with a short preamble these are the first \<open>n\<close> long
  numbered segments. A segment whose trimmed length is at most 30 never appears in the
  result, and every entry of the result of any raw text is longer than 30 and has no
  whitespace at either end. Every raw text is such a preamble followed by numbered
  segments.
\<close>

theorem split_posts_numbered_segments:
  assumes "marker_free pre (numbered_text items)" and "well_numbered items"
    and "0 \<le> n"
    and "n \<le> int (length (filter (\<lambda>s. 30 < length (strip s)) (pre # map snd items)))"
  shows "re_split (pre @ numbered_text items) = pre # map snd items \<and>
         split_posts (pre @ numbered_text items) n =
           take (nat n) (map strip (filter (\<lambda>s. 30 < length (strip s)) (pre # map snd items))) \<and>
         length (split_posts (pre @ numbered_text items) n) = nat n \<and>
         subseq (split_posts (pre @ numbered_text items) n) (map strip (pre # map snd items)) \<and>
         (length (strip pre) \<le> 30 \<longrightarrow>
            split_posts (pre @ numbered_text items) n =
              take (nat n) (map strip (filter (\<lambda>s. 30 < length (strip s)) (map snd items)))) \<and>
         (\<forall>s\<in>set (pre # map snd items). length (strip s) \<le> 30 \<longrightarrow>
            strip s \<notin> set (split_posts (pre @ numbered_text items) k)) \<and>
         (\<forall>p\<in>set (split_posts raw k).
            30 < length p \<and> \<not> is_space (hd p) \<and> \<not> is_space (last p)) \<and>
         (\<exists>pre' items'. raw = pre' @ numbered_text items' \<and>
            marker_free pre' (numbered_text items') \<and> well_numbered items')"
proof -
  let ?raw = "pre @ numbered_text items" and ?segs = "pre # map snd items"
  let ?long = "\<lambda>s. 30 < length (strip s)"
  have "re_split_from [] ?raw = ([] @ pre) # map snd items"
    using assms(1,2) by (rule re_split_numbered)
  then have split: "re_split ?raw = ?segs" by (simp add: re_split_def)
  have lf: "long_fragments fs = map strip (filter ?long fs)" for fs
    by (simp add: long_fragments_def)
  have eq: "split_posts ?raw n = take (nat n) (map strip (filter ?long ?segs))"
    using assms(3) by (simp only: split_posts_def split slice_to_nonneg lf)
  have len: "length (split_posts ?raw n) = nat n"
    using assms(3,4) by (simp add: eq)
  have "subseq (split_posts ?raw n) (long_fragments ?segs)"
    unfolding split_posts_def split by (rule subseq_slice_to)
  then have sub: "subseq (split_posts ?raw n) (map strip ?segs)"
    using subseq_long_fragments subseq_order.order_trans by blast
  have head: "split_posts ?raw n = take (nat n) (map strip (filter ?long (map snd items)))"
    if "length (strip pre) \<le> 30"
    using that by (simp add: eq)
  have long: "30 < length p \<and> \<not> is_space (hd p) \<and> \<not> is_space (last p)"
    if "p \<in> set (split_posts t k)" for p t
  proof -
    have "set (split_posts t k) \<subseteq> set (long_fragments (re_split t))"
      unfolding split_posts_def by (rule set_slice_to)
    with that have "p \<in> set (long_fragments (re_split t))" by (rule rev_subsetD)
    then show ?thesis by (rule long_fragments_trimmed)
  qed
  have short: "strip s \<notin> set (split_posts ?raw k)" if "length (strip s) \<le> 30" for s
  proof
    assume "strip s \<in> set (split_posts ?raw k)"
    then have "30 < length (strip s)" using long by blast
    with that show False by simp
  qed
  show ?thesis
  proof (intro conjI ballI impI)
    show "re_split ?raw = ?segs" by (rule split)
    show "split_posts ?raw n = take (nat n) (map strip (filter ?long ?segs))" by (rule eq)
    show "length (split_posts ?raw n) = nat n" by (rule len)
    show "subseq (split_posts ?raw n) (map strip ?segs)" by (rule sub)
    show "split_posts ?raw n = take (nat n) (map strip (filter ?long (map snd items)))"
      if "length (strip pre) \<le> 30" using that by (rule head)
    show "strip s \<notin> set (split_posts ?raw k)" if "length (strip s) \<le> 30" for s
      using that by (rule short)
    show "30 < length p" if "p \<in> set (split_posts raw k)" for p
      using long[OF that] by blast
    show "\<not> is_space (hd p)" if "p \<in> set (split_posts raw k)" for p
      using long[OF that] by blast
    show "\<not> is_space (last p)" if "p \<in> set (split_posts raw k)" for p
      using long[OF that] by blast
    show "\<exists>pre' items'. raw = pre' @ numbered_text items' \<and>
            marker_free pre' (numbered_text items') \<and> well_numbered items'"
      by (rule numbered_text_exists)
  qed
qed

theorem split_posts_numbered_segments_witness:
  "marker_free example_header (numbered_text example_items) \<and> well_numbered example_items \<and>
   (0::int) \<le> 3 \<and>
   3 \<le> int (length (filter (\<lambda>s. 30 < length (strip s))
                (example_header # map snd example_items))) \<and>
   length (strip example_header) \<le> 30 \<and>
   re_split (example_header @ numbered_text example_items) =
     [''Posts:'', '' Cold starts are hard, and I hate waiting for traction.'',
      '' Seed one side of the marketplace before the other.'', '' Short.'',
      '' Measure liquidity, not sign-ups, from the first week.''] \<and>
   split_posts (example_header @ numbered_text example_items) 3 =
     [''Cold starts are hard, and I hate waiting for traction.'',
      ''Seed one side of the marketplace before the other.'',
      ''Measure liquidity, not sign-ups, from the first week.''] \<and>
   length (split_posts (example_header @ numbered_text example_items) 3) = 3 \<and>
   '' Short.'' \<in> set (example_header # map snd example_items) \<and>
   length (strip '' Short.'') \<le> 30 \<and>
   strip '' Short.'' \<notin> set (split_posts (example_header @ numbered_text example_items) 3)"
proof -
  let ?raw = "example_header @ numbered_text example_items"
  have h1: "marker_free example_header (numbered_text example_items)"
    unfolding marker_free_iff by code_simp
  have h2: "well_numbered example_items"
    unfolding example_items_def well_numbered.simps numbered_text.simps marker_free_iff
    by code_simp
  have h3: "(0::int) \<le> 3" by simp
  have h4: "3 \<le> int (length (filter (\<lambda>s. 30 < length (strip s))
                (example_header # map snd example_items)))"
    by code_simp
  have h5: "length (strip example_header) \<le> 30" by code_simp
  have v1: "example_header # map snd example_items =
     [''Posts:'', '' Cold starts are hard, and I hate waiting for traction.'',
      '' Seed one side of the marketplace before the other.'', '' Short.'',
      '' Measure liquidity, not sign-ups, from the first week.'']"
    by code_simp
  have v2: "take (nat 3) (map strip (filter (\<lambda>s. 30 < length (strip s)) (map snd example_items))) =
     [''Cold starts are hard, and I hate waiting for traction.'',
      ''Seed one side of the marketplace before the other.'',
      ''Measure liquidity, not sign-ups, from the first week.'']"
    by code_simp
  have s1: "'' Short.'' \<in> set (example_header # map snd example_items)" by code_simp
  have s2: "length (strip '' Short.'') \<le> 30" by code_simp
  note T = split_posts_numbered_segments[OF h1 h2 h3 h4, where k = 3]
  from T have "re_split ?raw = example_header # map snd example_items" by (rule conjunct1)
  then have f6: "re_split ?raw =
     [''Posts:'', '' Cold starts are hard, and I hate waiting for traction.'',
      '' Seed one side of the marketplace before the other.'', '' Short.'',
      '' Measure liquidity, not sign-ups, from the first week.'']"
    by (simp only: v1)
  from T have "length (strip example_header) \<le> 30 \<longrightarrow>
      split_posts ?raw 3 =
        take (nat 3) (map strip (filter (\<lambda>s. 30 < length (strip s)) (map snd example_items)))"
    by blast
  with h5 have "split_posts ?raw 3 =
        take (nat 3) (map strip (filter (\<lambda>s. 30 < length (strip s)) (map snd example_items)))"
    by (rule rev_mp)
  then have f7: "split_posts ?raw 3 =
     [''Cold starts are hard, and I hate waiting for traction.'',
      ''Seed one side of the marketplace before the other.'',
      ''Measure liquidity, not sign-ups, from the first week.'']"
    by (simp only: v2)
  from T have "length (split_posts ?raw 3) = nat 3" by blast
  then have f8: "length (split_posts ?raw 3) = 3" by simp
  from T have "\<forall>s\<in>set (example_header # map snd example_items).
      length (strip s) \<le> 30 \<longrightarrow> strip s \<notin> set (split_posts ?raw 3)"
    by blast
  with s1 s2 have f11: "strip '' Short.'' \<notin> set (split_posts ?raw 3)" by blast
  from h1 h2 h3 h4 h5 f6 f7 f8 s1 s2 f11 show ?thesis by (intro conjI)
qed

section \<open>The pipeline\<close>

lemma generate_posts_success:
  assumes "generate_posts client r w = (Inr (posts, extras), w')"
  shows "\<exists>posts_raw w2. draft_reply client r w = (Inr posts_raw, w2) \<and>
     posts = map clean_output (split_posts posts_raw (post_count r)) \<and>
     (if hashtags r \<or> cta r then chat client (extras_prompt r) w2 = (Inr extras, w')
      else extras = [] \<and> w' = w2)"
  using assms
  by (auto simp: generate_posts_def draft_reply_def Let_def split: prod.splits sum.splits if_splits)

lemma generate_posts_failure:
  "first_failure client r w = Some (e, w') \<Longrightarrow> generate_posts client r w = (Inl e, w')"
  by (auto simp: generate_posts_def first_failure_def Let_def split: prod.splits sum.splits if_splits)

text \<open>
  C9: the extras are never filtered. When the plan and draft calls return, a flag is set
  and the extras call returns a reply, \<open>generate_posts\<close> returns that reply as it is,
  next to the filtered posts; so a banned word in the reply is still in the extras.
\<close>

theorem extras_not_filtered:
  assumes "draft_reply client r w = (Inr posts_raw, w2)" and "hashtags r \<or> cta r"
    and "chat client (extras_prompt r) w2 = (Inr reply, w3)"
  shows "generate_posts client r w =
     (Inr (map clean_output (split_posts posts_raw (post_count r)), reply), w3)"
proof -
  from assms(1) obtain plan w1 where p: "chat client (plan_prompt r) w = (Inr plan, w1)"
    and d: "chat client (gen_prompt r plan) w1 = (Inr posts_raw, w2)"
    by (auto simp: draft_reply_def split: prod.splits sum.splits)
  from p d assms(2,3) show ?thesis
    by (simp add: generate_posts_def Let_def)
qed

theorem extras_not_filtered_witness:
  "draft_reply scripted example_request [Inr ''plan'', Inr ''draft'', Inr ''I hate spam''] =
     (Inr ''draft'', [Inr ''I hate spam'']) \<and>
   (hashtags example_request \<or> cta example_request) \<and>
   chat scripted (extras_prompt example_request) [Inr ''I hate spam''] = (Inr ''I hate spam'', []) \<and>
   generate_posts scripted example_request [Inr ''plan'', Inr ''draft'', Inr ''I hate spam''] =
     (Inr ([], ''I hate spam''), []) \<and>
   has_whole_word ''hate'' ''I hate spam'' \<and>
   clean_output ''I hate spam'' = ''I [removed] spam''"
proof -
  have d: "draft_reply scripted example_request [Inr ''plan'', Inr ''draft'', Inr ''I hate spam''] =
     (Inr ''draft'', [Inr ''I hate spam''])"
    by code_simp
  have f: "hashtags example_request \<or> cta example_request" by (simp add: example_request_def)
  have c: "chat scripted (extras_prompt example_request) [Inr ''I hate spam''] =
     (Inr ''I hate spam'', [])"
    by (simp add: chat_def scripted_def)
  have p: "split_posts ''draft'' (post_count example_request) = []" by code_simp
  have h: "has_whole_word ''hate'' ''I hate spam''" by code_simp
  have cl: "clean_output ''I hate spam'' = ''I [removed] spam''" by code_simp
  from extras_not_filtered[OF d f c] d f c p h cl show ?thesis by simp
qed

text \<open>
  C1, as the code has it: the extras are always a string. When neither flag is set the
  extras are the empty string, and extras that are shown (non-empty) imply that a flag
  was set. The empty string is also what a run with a flag set returns when the
  collaborator replies with an empty text, so it does not tell the two apart.
\<close>

theorem extras_empty_when_not_requested:
  assumes "generate_posts client r w = (Inr (posts, extras), w')"
  shows "(\<not> (hashtags r \<or> cta r) \<longrightarrow> extras = []) \<and>
         (suggestions_shown extras \<longrightarrow> hashtags r \<or> cta r)"
  using generate_posts_success[OF assms]
  by (auto simp: suggestions_shown_def split: if_splits)

theorem extras_empty_when_not_requested_witness:
  "generate_posts scripted (example_request\<lparr>hashtags := False, cta := False\<rparr>)
     [Inr ''plan'', Inr ''draft''] = (Inr ([], []), []) \<and>
   \<not> (hashtags (example_request\<lparr>hashtags := False, cta := False\<rparr>) \<or>
      cta (example_request\<lparr>hashtags := False, cta := False\<rparr>)) \<and>
   generate_posts scripted example_request [Inr ''plan'', Inr ''draft'', Inr ''#growth''] =
     (Inr ([], ''#growth''), []) \<and>
   suggestions_shown ''#growth'' \<and> (hashtags example_request \<or> cta example_request)"
proof -
  let ?r = "example_request\<lparr>hashtags := False, cta := False\<rparr>"
  have g1: "generate_posts scripted ?r [Inr ''plan'', Inr ''draft''] = (Inr ([], []), [])"
    by code_simp
  have g2: "generate_posts scripted example_request [Inr ''plan'', Inr ''draft'', Inr ''#growth''] =
     (Inr ([], ''#growth''), [])"
    by code_simp
  have s: "suggestions_shown ''#growth''" by (simp add: suggestions_shown_def)
  from extras_empty_when_not_requested[OF g1] extras_empty_when_not_requested[OF g2] g1 g2 s
  show ?thesis by simp
qed

text \<open>
  C1, as stated, fails: with neither flag set the extras are the empty string, the same
  value as in a run with the hashtag flag set and an empty reply.
\<close>

theorem extras_absent_counterexample:
  "generate_posts scripted (example_request\<lparr>hashtags := False, cta := False\<rparr>)
     [Inr ''plan'', Inr ''draft''] = (Inr ([], ''''), []) \<and>
   generate_posts scripted example_request [Inr ''plan'', Inr ''draft'', Inr ''''] =
     (Inr ([], ''''), [])"
  by code_simp

section \<open>The run of the script and the session history\<close>

text \<open>
  C5: when one of the sequential collaborator calls of a run raises, \<open>generate_posts\<close>
  raises that exception, the run shows its message and no posts, and the history is as
  it was.
\<close>

theorem collaborator_failure_aborts:
  assumes "topic r \<noteq> []" and "first_failure client r w = Some (Exn e, w')"
  shows "generate_posts client r w = (Inl (Exn e), w') \<and>
         run_script client r True history w = ((ErrorMessage e, history), w')"
  using assms generate_posts_failure[OF assms(2)] by (simp add: run_script_def)

theorem collaborator_failure_aborts_witness:
  "topic example_request \<noteq> [] \<and>
   first_failure scripted example_request [Inr ''plan'', Inl (Exn ''quota exceeded'')] =
     Some (Exn ''quota exceeded'', []) \<and>
   run_script scripted example_request True [example_posts]
     [Inr ''plan'', Inl (Exn ''quota exceeded'')] =
     ((ErrorMessage ''quota exceeded'', [example_posts]), [])"
proof -
  have t: "topic example_request \<noteq> []" by (simp add: example_request_def)
  have f: "first_failure scripted example_request [Inr ''plan'', Inl (Exn ''quota exceeded'')] =
     Some (Exn ''quota exceeded'', [])"
    by code_simp
  from collaborator_failure_aborts[OF t f, of "[example_posts]"] t f show ?thesis by simp
qed

text \<open>
  C6: with an empty topic the run shows the warning and nothing else happens: for every
  collaborator the outside world is as it was, so no call was made, and the history is as
  it was.
\<close>

theorem empty_topic_not_run:
  assumes "topic r = []"
  shows "run_script client r True history w = ((TopicWarning, history), w)"
  using assms by (simp add: run_script_def)

theorem empty_topic_not_run_witness:
  "topic (example_request\<lparr>topic := []\<rparr>) = [] \<and>
   run_script scripted (example_request\<lparr>topic := []\<rparr>) True [example_posts] [Inr ''plan''] =
     ((TopicWarning, [example_posts]), [Inr ''plan''])"
proof -
  have t: "topic (example_request\<lparr>topic := []\<rparr>) = []" by simp
  from empty_topic_not_run[OF t, of scripted "[example_posts]" "[Inr ''plan'']"] t
  show ?thesis by simp
qed





lemma clean_output_clean_post: "clean_post (clean_output p)"
proof -
  have "\<not> has_whole_word b (clean_output p)" if b: "b \<in> set banned_words" for b
  proof -
    from b banned_plain have "letters b" by (auto simp: list_all_iff plain_word_def)
    then have "has_whole_word b (clean_output p) = scan_word b False (clean_output p)"
      by (rule has_whole_word_scan)
    with clean_output_scan[OF b] show ?thesis by simp
  qed
  then show ?thesis by (simp add: clean_post_def list_all_iff)
qed

lemma run_script_clean:
  assumes "run_script client r btn history w = ((d, history'), w')" "clean_history history"
  shows "clean_history history'"
proof (cases "btn \<and> topic r \<noteq> []")
  case False
  with assms show ?thesis by (auto simp: run_script_def split: if_splits)
next
  case True
  show ?thesis
  proof (cases "generate_posts client r w")
    case (Pair res w1)
    show ?thesis
    proof (cases res)
      case (Inl e)
      with Pair True assms show ?thesis
        by (cases e) (auto simp: run_script_def)
    next
      case (Inr pe)
      obtain posts extras where pe: "pe = (posts, extras)" by (cases pe)
      from generate_posts_success[of client r w posts extras w1] Pair Inr pe
      obtain posts_raw where "posts = map clean_output (split_posts posts_raw (post_count r))"
        by auto
      then have "list_all clean_post posts"
        by (simp add: list_all_iff clean_output_clean_post)
      moreover from Pair Inr pe True assms have "history' = history @ [posts]"
        by (auto simp: run_script_def)
      ultimately show ?thesis using assms(2) by (simp add: clean_history_def)
    qed
  qed
qed

lemma run_session_clean:
  "run_session client runs history w = ((ds, history'), w') \<Longrightarrow> clean_history history \<Longrightarrow>
   clean_history history'"
proof (induction runs arbitrary: history w ds history' w')
  case Nil
  then show ?case by simp
next
  case (Cons run runs)
  obtain r btn where run: "run = (r, btn)" by (cases run)
  obtain d h1 w1 where step: "run_script client r btn history w = ((d, h1), w1)"
    by (metis prod.exhaust)
  obtain ds1 h2 w2 where rest: "run_session client runs h1 w1 = ((ds1, h2), w2)"
    by (metis prod.exhaust)
  from Cons.prems(1) run step rest have h: "history' = h2" by simp
  from run_script_clean[OF step Cons.prems(2)] have "clean_history h1" .
  from Cons.IH[OF rest this] h show ?case by simp
qed

text \<open>
  C7: the posts that \<open>generate_posts\<close> returns are the fragments of the draft reply,
  each passed through \<open>clean_output\<close>; and every entry of the history of a session
  that started empty is free of whole-word occurrences of banned words.
\<close>

theorem history_entries_filtered:
  "(generate_posts client r v = (Inr (posts, extras), v') \<longrightarrow>
      (\<exists>posts_raw v2. draft_reply client r v = (Inr posts_raw, v2) \<and>
         posts = map clean_output (split_posts posts_raw (post_count r)))) \<and>
   (run_session client runs initial_history w = ((ds, history), w') \<longrightarrow>
      clean_history history)"
proof (intro conjI impI)
  assume "generate_posts client r v = (Inr (posts, extras), v')"
  from generate_posts_success[OF this]
  show "\<exists>posts_raw v2. draft_reply client r v = (Inr posts_raw, v2) \<and>
         posts = map clean_output (split_posts posts_raw (post_count r))" by blast
next
  assume "run_session client runs initial_history w = ((ds, history), w')"
  moreover have "clean_history initial_history"
    by (simp add: clean_history_def initial_history_def)
  ultimately show "clean_history history" by (rule run_session_clean)
qed

theorem history_entries_filtered_witness:
  "generate_posts scripted example_request [Inr ''plan'', Inr example_draft, Inr ''#growth''] =
     (Inr (example_posts, ''#growth''), []) \<and>
   draft_reply scripted example_request [Inr ''plan'', Inr example_draft, Inr ''#growth''] =
     (Inr example_draft, [Inr ''#growth'']) \<and>
   example_posts = map clean_output (split_posts example_draft (post_count example_request)) \<and>
   run_session scripted [(example_request, True)] initial_history
     [Inr ''plan'', Inr example_draft, Inr ''#growth''] =
     (([Results example_posts ''#growth''], [example_posts]), []) \<and>
   clean_history [example_posts]"
proof -
  let ?replies = "[Inr ''plan'', Inr example_draft, Inr ''#growth'']"
  have g: "generate_posts scripted example_request ?replies = (Inr (example_posts, ''#growth''), [])"
    by code_simp
  have d: "draft_reply scripted example_request ?replies = (Inr example_draft, [Inr ''#growth''])"
    by code_simp
  have s: "run_session scripted [(example_request, True)] initial_history ?replies =
     (([Results example_posts ''#growth''], [example_posts]), [])"
    using g by (simp add: run_script_def example_request_def initial_history_def)
  from history_entries_filtered[of scripted example_request ?replies example_posts "''#growth''" "[]"
      "[(example_request, True)]" ?replies "[Results example_posts ''#growth'']" "[example_posts]" "[]"]
    g d s
  show ?thesis by simp
qed

end
